theory Spec2Isabelle
  imports Complex_Main "HOL-Library.Sublist" "HOL-Library.Multiset"
begin

section \<open>Data model of the medical image processor component\<close>

text \<open>
  The component \<open>MedicalImageProcessor\<close> keeps its state in React hooks: the image
  registry \<open>images\<close>, the cursor \<open>currentImageIndex\<close>, the chosen tool
  \<open>selectedTool\<close>, the job list \<open>processingHistory\<close>, and one module-level Niivue
  renderer \<open>nv\<close>. Every handler is modelled as a function from the state (and the values
  the handler obtains from its environment: the random string, the clock, the answer of
  the confirm dialog) to a reply and the next state. The sidebar flag and the view mode
  take no part in the job lifecycle or in the visibility of volumes and are left out.
\<close>

text \<open>\<open>type ImageFile = { id: string, name: string, selected: boolean }\<close>\<close>

record ImageFile =
  id_image :: string
  name_image :: string
  selected :: bool

text \<open>\<open>type ProcessingTool = { id: string, name: string, description: string }\<close>\<close>

record ProcessingTool =
  id_tool :: string
  name_tool :: string
  description :: string

text \<open>
  Modelled from the spec: the document snapshot (\<open>DocumentData\<close> / \<open>NVDocument\<close> of the
  renderer library) is opaque to the component, which reads only
  \<open>result.data.imageOptionsArray\<close>, an optional list. Each entry stands for one volume
  and is kept as a string.
\<close>

record document =
  imageOptionsArray :: "string list option"

datatype status = Pending | Completed | Failed

text \<open>
  Modelled from the spec: the type \<open>ProcessingHistoryItem\<close> is declared in
  \<open>components/processing-history\<close>; its fields are the ones the component writes and reads
  (\<open>id\<close>, \<open>timestamp\<close>, \<open>nvDocument\<close>, \<open>toolName\<close>, \<open>status\<close>, and the optional
  \<open>result\<close> and \<open>error\<close>), which are the fields of the spec's Job Record.
\<close>

record ProcessingHistoryItem =
  id_item :: string
  timestamp :: nat
  nvDocument :: document
  toolName :: string
  status :: status
  result :: "document option"
  error :: "string option"

subsection \<open>The renderer\<close>

text \<open>
  Modelled from the spec: the Renderer Adapter (the Niivue instance) is an external
  collaborator. The model keeps what the component can observe through the calls it
  makes: the ordered volumes with their ids and opacities, the number of redraws asked
  for with \<open>updateGLVolume\<close>, and the arguments of the \<open>loadVolumes\<close> calls.
\<close>

record volume =
  vid :: string
  opacity :: real

record renderer =
  volumes :: "volume list"
  redraws :: nat
  loads :: "string list list"

text \<open>
  Modelled from the spec: \<open>getVolumeIndexByID(id)\<close> resolves an id to the current index
  of the first volume carrying it; the library answers \<open>-1\<close> when there is none.
\<close>

fun volumeIndex :: "string \<Rightarrow> volume list \<Rightarrow> int" where
  "volumeIndex i [] = - 1"
| "volumeIndex i (v # vs) =
     (if vid v = i then 0
      else (let k = volumeIndex i vs in if k < 0 then - 1 else k + 1))"

definition getVolumeIndexByID :: "string \<Rightarrow> renderer \<Rightarrow> int" where
  "getVolumeIndexByID i r = volumeIndex i (volumes r)"

text \<open>
  Modelled from the spec: \<open>setOpacity(volumeIndex, value)\<close> writes the opacity of the
  volume at that index. At an index that holds no volume (such as \<open>-1\<close>) the library
  assigns a property of \<open>undefined\<close>, which raises a \<open>TypeError\<close>; the renderer is then
  left as it was.
\<close>

definition setOpacity :: "int \<Rightarrow> real \<Rightarrow> renderer \<Rightarrow> string + renderer" where
  "setOpacity k v r =
     (if 0 \<le> k \<and> k < int (length (volumes r))
      then Inr (r\<lparr>volumes := (volumes r)[nat k := (volumes r ! nat k)\<lparr>opacity := v\<rparr>]\<rparr>)
      else Inl ''TypeError'')"

definition updateGLVolume :: "renderer \<Rightarrow> renderer" where
  "updateGLVolume r = r\<lparr>redraws := Suc (redraws r)\<rparr>"

text \<open>
  Modelled from the spec: \<open>removeVolumeByIndex(index)\<close> takes the volume at that index
  out of the volume set; the library raises an error when the index is past the end.
\<close>

definition removeVolumeByIndex :: "nat \<Rightarrow> renderer \<Rightarrow> string + renderer" where
  "removeVolumeByIndex k r =
     (if k < length (volumes r)
      then Inr (r\<lparr>volumes := take k (volumes r) @ drop (Suc k) (volumes r)\<rparr>)
      else Inl ''Index of volume out of bounds'')"

text \<open>Modelled from the spec: \<open>addVolume(volume)\<close> appends a volume, fully opaque.\<close>

definition addVolume :: "string \<Rightarrow> renderer \<Rightarrow> renderer" where
  "addVolume i r = r\<lparr>volumes := volumes r @ [\<lparr>vid = i, opacity = 1\<rparr>]\<rparr>"

text \<open>
  Modelled from the spec: \<open>json()\<close> serialises the current renderer state to a document
  snapshot, one entry for each volume.
\<close>

definition json :: "renderer \<Rightarrow> document" where
  "json r = \<lparr>imageOptionsArray = Some (map vid (volumes r))\<rparr>"

text \<open>
  Modelled from the spec: \<open>loadVolumes(optionsArray)\<close> bulk-loads a result's volumes with
  renderer-defined merge semantics. The volume set the renderer holds afterwards is
  therefore a parameter (\<open>after\<close>); the call itself is recorded in \<open>loads\<close>.
\<close>

definition loadVolumes :: "string list \<Rightarrow> volume list \<Rightarrow> renderer \<Rightarrow> renderer" where
  "loadVolumes opts after r = r\<lparr>volumes := after, loads := loads r @ [opts]\<rparr>"

subsection \<open>Component state and replies\<close>

text \<open>
  \<open>pending\<close> lists, in the order of their creation, the job ids captured by the
  \<open>setTimeout\<close> callbacks of \<open>handleProcessImages\<close> that have not settled yet. The ref
  \<open>nvRef\<close> is created as \<open>useRef(nv)\<close> and never assigned, so \<open>nvRef.current\<close> is the
  renderer \<open>nv\<close> throughout and its null checks never fire.
\<close>

record app =
  images :: "ImageFile list"
  currentImageIndex :: "nat option"
  selectedTool :: "string option"
  processingHistory :: "ProcessingHistoryItem list"
  nv :: renderer
  pending :: "string list"

text \<open>
  What a handler shows and how it ends: the texts passed to \<open>alert\<close>, in order, and the
  error it throws, if any.
\<close>

record reply =
  alerts :: "string list"
  thrown :: "string option"

definition quiet :: reply where
  "quiet = \<lparr>alerts = [], thrown = None\<rparr>"

definition alerting :: "string \<Rightarrow> reply" where
  "alerting msg = \<lparr>alerts = [msg], thrown = None\<rparr>"

definition throwing :: "string \<Rightarrow> reply" where
  "throwing e = \<lparr>alerts = [], thrown = Some e\<rparr>"

definition processingTools :: "ProcessingTool list" where
  "processingTools =
     [\<lparr>id_tool = ''segmentation'', name_tool = ''Segmentation'',
        description = ''Segment different regions in the image''\<rparr>,
      \<lparr>id_tool = ''registration'', name_tool = ''Image Registration'',
        description = ''Align multiple images''\<rparr>]"

section \<open>Image registry\<close>

text \<open>
  The continuation of \<open>handleFileUpload\<close> for one file, once \<open>NVImage.loadFromFile\<close> has
  produced a volume with the given id and name: the volume is added to the renderer and
  an unselected image is appended to the registry.
\<close>

definition fileLoaded :: "string \<Rightarrow> string \<Rightarrow> app \<Rightarrow> reply \<times> app" where
  "fileLoaded i n s =
     (quiet, s\<lparr>nv := addVolume i (nv s),
               images := images s @ [\<lparr>id_image = i, name_image = n, selected = False\<rparr>]\<rparr>)"

text \<open>
  The synchronous part of \<open>handleFileUpload\<close> for \<open>k\<close> files: the cursor is put on the
  first new image when no image was active.
\<close>

definition handleFileUpload :: "nat \<Rightarrow> app \<Rightarrow> reply \<times> app" where
  "handleFileUpload k s =
     (quiet, if currentImageIndex s = None \<and> 0 < k
             then s\<lparr>currentImageIndex := Some (length (images s))\<rparr> else s)"

definition toggleImageSelection :: "string \<Rightarrow> app \<Rightarrow> reply \<times> app" where
  "toggleImageSelection i s =
     (quiet, s\<lparr>images :=
        map (\<lambda>img. if id_image img = i then img\<lparr>selected := \<not> selected img\<rparr> else img)
          (images s)\<rparr>)"

definition setSelectedTool :: "string \<Rightarrow> app \<Rightarrow> reply \<times> app" where
  "setSelectedTool t s = (quiet, s\<lparr>selectedTool := Some t\<rparr>)"

section \<open>Job orchestrator\<close>

text \<open>JavaScript truthiness of \<open>selectedTool: string | null\<close>.\<close>

definition truthy :: "string option \<Rightarrow> bool" where
  "truthy t = (case t of None \<Rightarrow> False | Some x \<Rightarrow> x \<noteq> [])"

text \<open>
  \<open>Math.random().toString(36).substring(2, 9)\<close>: the argument is the string
  \<open>Math.random().toString(36)\<close>, for instance \<open>0.i\<close> for the draw \<open>0.5\<close>.
\<close>

definition newId :: "string \<Rightarrow> string" where
  "newId rnd = take (9 - 2) (drop 2 rnd)"

text \<open>
  The indexes of the unselected images, highest first:
  \<open>images.map((img, idx) => ({img, idx})).filter(({img}) => !img.selected).reverse()\<close>.
\<close>

definition unselectedIndexes :: "ImageFile list \<Rightarrow> nat list" where
  "unselectedIndexes imgs =
     rev (map snd (filter (\<lambda>(img, idx). \<not> selected img) (zip imgs [0..<length imgs])))"

text \<open>
  \<open>forEach(({idx}) => nvCopy.removeVolumeByIndex(idx))\<close>: the removals made before an
  error stay in the renderer.
\<close>

fun removeVolumes :: "nat list \<Rightarrow> renderer \<Rightarrow> string option \<times> renderer" where
  "removeVolumes [] r = (None, r)"
| "removeVolumes (k # ks) r =
     (case removeVolumeByIndex k r of
        Inl e \<Rightarrow> (Some e, r)
      | Inr r' \<Rightarrow> removeVolumes ks r')"

text \<open>\<open>tool?.name || selectedTool\<close>\<close>

definition toolNameOf :: "string \<Rightarrow> string" where
  "toolNameOf t =
     (case find (\<lambda>x. id_tool x = t) processingTools of
        None \<Rightarrow> t
      | Some x \<Rightarrow> if name_tool x \<noteq> [] then name_tool x else t)"

text \<open>
  \<open>handleProcessImages\<close>, with the random string \<open>rnd\<close> and the clock \<open>now\<close>. The
  variable \<open>nvCopy\<close> is \<open>nvRef.current\<close>, the live renderer itself.
\<close>

definition handleProcessImages :: "string \<Rightarrow> nat \<Rightarrow> app \<Rightarrow> reply \<times> app" where
  "handleProcessImages rnd now s =
     (let selectedImages = filter selected (images s) in
      if length selectedImages = 0 \<or> \<not> truthy (selectedTool s)
      then (alerting ''Please select at least one image and a processing tool'', s)
      else
        (case removeVolumes (unselectedIndexes (images s)) (nv s) of
           (Some e, r) \<Rightarrow> (throwing e, s\<lparr>nv := r\<rparr>)
         | (None, r) \<Rightarrow>
             (let nvd = json r;
                  historyItem =
                    \<lparr>id_item = newId rnd, timestamp = now, nvDocument = nvd,
                     toolName = toolNameOf (the (selectedTool s)),
                     status = Pending, result = None, error = None\<rparr>
              in (quiet,
                  s\<lparr>nv := r,
                    processingHistory := historyItem # processingHistory s,
                    pending := pending s @ [id_item historyItem]\<rparr>))))"

text \<open>
  What the \<open>try\<close> block of the timeout callback comes to: the result document, or the
  value caught. \<open>message\<close> is the text the \<open>catch\<close> branch stores: the \<open>message\<close>
  property of an error object, or \<open>String(error)\<close> of any other value.
\<close>

datatype caught = ErrorObject string | OtherValue string

datatype settled = Fulfilled document | Rejected caught

fun message :: "caught \<Rightarrow> string" where
  "message (ErrorObject m) = m"
| "message (OtherValue v) = v"

text \<open>The updater passed to \<open>setProcessingHistory\<close> by the callback of job \<open>jid\<close>.\<close>

fun resolve :: "string \<Rightarrow> settled \<Rightarrow> ProcessingHistoryItem list \<Rightarrow> ProcessingHistoryItem list" where
  "resolve jid (Fulfilled resultDocument) prev =
     map (\<lambda>item. if id_item item = jid
                  then item\<lparr>status := Completed, result := Some resultDocument\<rparr>
                  else item) prev"
| "resolve jid (Rejected e) prev =
     map (\<lambda>item. if id_item item = jid
                  then item\<lparr>status := Failed, error := Some (message e)\<rparr>
                  else item) prev"

text \<open>The \<open>k\<close>-th outstanding callback settles; there is nothing to do for other \<open>k\<close>.\<close>

definition settle :: "nat \<Rightarrow> settled \<Rightarrow> app \<Rightarrow> reply \<times> app" where
  "settle k out s =
     (if k < length (pending s)
      then (quiet, s\<lparr>pending := take k (pending s) @ drop (Suc k) (pending s),
                     processingHistory := resolve (pending s ! k) out (processingHistory s)\<rparr>)
      else (quiet, s))"

definition handleDeleteHistoryItem :: "string \<Rightarrow> app \<Rightarrow> reply \<times> app" where
  "handleDeleteHistoryItem i s =
     (quiet, s\<lparr>processingHistory := filter (\<lambda>item. id_item item \<noteq> i) (processingHistory s)\<rparr>)"

text \<open>\<open>handleClearHistory\<close>; \<open>confirmed\<close> is the answer of the \<open>confirm\<close> dialog.\<close>

definition handleClearHistory :: "bool \<Rightarrow> app \<Rightarrow> reply \<times> app" where
  "handleClearHistory confirmed s =
     (quiet, if confirmed then s\<lparr>processingHistory := []\<rparr> else s)"

section \<open>Result applier\<close>

text \<open>
  \<open>handleViewResult\<close>; \<open>after\<close> is the volume set the renderer holds once \<open>loadVolumes\<close>
  is done. Reading \<open>length\<close> of a missing \<open>imageOptionsArray\<close> raises a \<open>TypeError\<close>.
\<close>

definition handleViewResult :: "ProcessingHistoryItem \<Rightarrow> volume list \<Rightarrow> app \<Rightarrow> reply \<times> app" where
  "handleViewResult item after s =
     (case result item of
        None \<Rightarrow> (alerting ''No result available for this item'', s)
      | Some res \<Rightarrow>
          (let warn = (if truthy (error item)
                       then [''Process returned error message '' @ the (error item)]
                       else [])
           in case imageOptionsArray res of
                None \<Rightarrow> (\<lparr>alerts = warn, thrown = Some ''TypeError''\<rparr>, s)
              | Some opts \<Rightarrow>
                  if length opts = 0
                  then (\<lparr>alerts = warn @ [''No image options available in the result''],
                         thrown = None\<rparr>, s)
                  else (\<lparr>alerts = warn, thrown = None\<rparr>,
                        s\<lparr>nv := loadVolumes opts after (nv s)\<rparr>)))"

section \<open>Volume visibility controller\<close>

text \<open>
  The body of \<open>images.map((img, index) => ...)\<close> in \<open>handleVisibility\<close>, from position
  \<open>index\<close> on; it stops at the first call that throws.
\<close>

fun setOpacities :: "nat \<Rightarrow> nat \<Rightarrow> ImageFile list \<Rightarrow> renderer \<Rightarrow> string option \<times> renderer" where
  "setOpacities i index [] r = (None, r)"
| "setOpacities i index (img # imgs) r =
     (case setOpacity (getVolumeIndexByID (id_image img) r) (if index = i then 1 else 0) r of
        Inl e \<Rightarrow> (Some e, r)
      | Inr r' \<Rightarrow> setOpacities i (Suc index) imgs r')"

definition handleVisibility :: "nat \<Rightarrow> app \<Rightarrow> reply \<times> app" where
  "handleVisibility i s =
     (case setOpacities i 0 (images s) (nv s) of
        (Some e, r) \<Rightarrow> (throwing e, s\<lparr>currentImageIndex := Some i, nv := r\<rparr>)
      | (None, r) \<Rightarrow> (quiet, s\<lparr>currentImageIndex := Some i, nv := updateGLVolume r\<rparr>))"

section \<open>Sessions\<close>

text \<open>
  A session is a sequence of events on the single thread of the page: user actions and
  the settling of outstanding callbacks, in any order.
\<close>

datatype event =
    FileUpload nat
  | FileLoaded string string
  | ToggleImageSelection string
  | SetSelectedTool string
  | ProcessImages string nat
  | Settle nat settled
  | ViewResult ProcessingHistoryItem "volume list"
  | DeleteHistoryItem string
  | ClearHistory bool
  | Visibility nat

fun handle :: "event \<Rightarrow> app \<Rightarrow> reply \<times> app" where
  "handle (FileUpload k) s = handleFileUpload k s"
| "handle (FileLoaded i n) s = fileLoaded i n s"
| "handle (ToggleImageSelection i) s = toggleImageSelection i s"
| "handle (SetSelectedTool t) s = setSelectedTool t s"
| "handle (ProcessImages rnd now) s = handleProcessImages rnd now s"
| "handle (Settle k out) s = settle k out s"
| "handle (ViewResult item after) s = handleViewResult item after s"
| "handle (DeleteHistoryItem i) s = handleDeleteHistoryItem i s"
| "handle (ClearHistory c) s = handleClearHistory c s"
| "handle (Visibility i) s = handleVisibility i s"

fun run :: "app \<Rightarrow> event list \<Rightarrow> app" where
  "run s [] = s"
| "run s (e # es) = run (snd (handle e s)) es"

text \<open>The ids drawn by the submissions of a session, in order.\<close>

fun drawn :: "event list \<Rightarrow> string list" where
  "drawn [] = []"
| "drawn (ProcessImages rnd now # es) = newId rnd # drawn es"
| "drawn (e # es) = drawn es"

section \<open>Example data\<close>

text \<open>
  Two loaded scans, the first unselected and the second selected, each with its volume in
  the renderer; the segmentation tool is chosen and no job has been submitted.
\<close>

definition scanA :: ImageFile where
  "scanA = \<lparr>id_image = ''A'', name_image = ''a.nii'', selected = False\<rparr>"

definition scanB :: ImageFile where
  "scanB = \<lparr>id_image = ''B'', name_image = ''b.nii'', selected = True\<rparr>"

definition viewer0 :: renderer where
  "viewer0 = \<lparr>volumes = [\<lparr>vid = ''A'', opacity = 1\<rparr>, \<lparr>vid = ''B'', opacity = 1\<rparr>],
     redraws = 0, loads = []\<rparr>"

definition session0 :: app where
  "session0 = \<lparr>images = [scanA, scanB], currentImageIndex = Some 0,
     selectedTool = Some ''segmentation'', processingHistory = [], nv = viewer0,
     pending = []\<rparr>"

definition emptyScene :: document where
  "emptyScene = \<lparr>imageOptionsArray = Some []\<rparr>"

definition scene1 :: document where
  "scene1 = \<lparr>imageOptionsArray = Some [''out.nii'']\<rparr>"

definition job :: "string \<Rightarrow> status \<Rightarrow> ProcessingHistoryItem" where
  "job i st = \<lparr>id_item = i, timestamp = 0, nvDocument = emptyScene,
     toolName = ''Segmentation'', status = st, result = None, error = None\<rparr>"

section \<open>Notions used in the statements\<close>

text \<open>The renderer index to which the id of an image resolves.\<close>

definition slot :: "renderer \<Rightarrow> ImageFile \<Rightarrow> nat" where
  "slot r img = nat (getVolumeIndexByID (id_image img) r)"

text \<open>The ids of the records in the history.\<close>

definition jobIds :: "app \<Rightarrow> string set" where
  "jobIds s = id_item ` set (processingHistory s)"

text \<open>
  The history and the outstanding callbacks are kept apart: ids in the history are
  pairwise distinct, as are the ids of the outstanding callbacks, and no outstanding
  callback holds the id of a record that is already completed or failed.
\<close>

definition settledApart :: "app \<Rightarrow> bool" where
  "settledApart s \<longleftrightarrow>
     distinct (map id_item (processingHistory s)) \<and> distinct (pending s) \<and>
     (\<forall>item \<in> set (processingHistory s). status item \<noteq> Pending \<longrightarrow> id_item item \<notin> set (pending s))"

text \<open>
  A tool id resolves when \<open>processingTools.find((t) => t.id === selectedTool)\<close> finds a
  tool; \<open>null\<close> resolves to none.
\<close>

definition knownTool :: "string \<Rightarrow> bool" where
  "knownTool t \<longleftrightarrow> find (\<lambda>x. id_tool x = t) processingTools \<noteq> None"

definition resolves :: "string option \<Rightarrow> bool" where
  "resolves t = (case t of None \<Rightarrow> False | Some x \<Rightarrow> knownTool x)"

text \<open>
  \<open>setSelectedTool\<close> is passed to one place only, the \<open>onValueChange\<close> of the radio group
  whose items are the ids of \<open>processingTools\<close>: the page offers no other tool id.
\<close>

fun offered :: "event \<Rightarrow> bool" where
  "offered (SetSelectedTool t) = knownTool t"
| "offered e = True"

section \<open>Example sessions\<close>

text \<open>
  Both scans selected, so that a submission removes no volume; one job that completes,
  a later job with another id that fails, and a later job that draws the id of the first
  one again.
\<close>

definition bothSelected :: app where
  "bothSelected = session0\<lparr>images := [scanA\<lparr>selected := True\<rparr>, scanB]\<rparr>"

definition serverError :: settled where
  "serverError = Rejected (ErrorObject ''HTTP error! Status: 500'')"

definition firstJob :: "event list" where
  "firstJob = [ProcessImages ''0.i'' 1, Settle 0 (Fulfilled scene1)]"

definition secondJob :: "event list" where
  "secondJob = [ProcessImages ''0.j'' 2, Settle 0 serverError]"

definition repeatedJob :: "event list" where
  "repeatedJob = [ProcessImages ''0.i'' 2, Settle 0 serverError]"

definition doneJob :: ProcessingHistoryItem where
  "doneJob = \<lparr>id_item = ''i'', timestamp = 1,
     nvDocument = \<lparr>imageOptionsArray = Some [''A'', ''B'']\<rparr>, toolName = ''Segmentation'',
     status = Completed, result = Some scene1, error = None\<rparr>"

text \<open>A record as \<open>handleProcessImages\<close> creates it in that session.\<close>

definition waitingJob :: "string \<Rightarrow> nat \<Rightarrow> ProcessingHistoryItem" where
  "waitingJob i t = \<lparr>id_item = i, timestamp = t,
     nvDocument = \<lparr>imageOptionsArray = Some [''A'', ''B'']\<rparr>, toolName = ''Segmentation'',
     status = Pending, result = None, error = None\<rparr>"

lemmas ex_defs = scanA_def scanB_def viewer0_def session0_def emptyScene_def scene1_def job_def

section \<open>Submission is validated before any mutation\<close>

lemma submit_guard:
  "filter selected (images s) = [] \<or> \<not> truthy (selectedTool s) \<Longrightarrow>
   handleProcessImages rnd now s =
     (alerting ''Please select at least one image and a processing tool'', s)"
  by (auto simp add: handleProcessImages_def Let_def)

lemma knownTool_truthy: "knownTool t \<Longrightarrow> truthy (Some t)"
  by (auto simp add: knownTool_def truthy_def processingTools_def split: if_splits)

lemma handle_selectedTool:
  "selectedTool (snd (handle e s)) =
     (case e of SetSelectedTool t \<Rightarrow> Some t | _ \<Rightarrow> selectedTool s)"
proof (cases e)
  case (ProcessImages rnd now)
  then show ?thesis
    by (simp add: handleProcessImages_def Let_def split: prod.splits option.splits)
next
  case (ViewResult item after)
  then show ?thesis
    by (simp add: handleViewResult_def Let_def split: option.splits)
next
  case (Visibility i)
  then show ?thesis
    by (simp add: handleVisibility_def split: prod.splits option.splits)
qed (simp_all add: handleFileUpload_def fileLoaded_def toggleImageSelection_def
    setSelectedTool_def settle_def handleDeleteHistoryItem_def handleClearHistory_def)

lemma run_selectedTool:
  "selectedTool s = None \<or> resolves (selectedTool s) \<Longrightarrow> list_all offered evs \<Longrightarrow>
   selectedTool (run s evs) = None \<or> resolves (selectedTool (run s evs))"
proof (induction evs arbitrary: s)
  case Nil
  then show ?case by simp
next
  case (Cons e evs)
  have "selectedTool (snd (handle e s)) = None \<or> resolves (selectedTool (snd (handle e s)))"
    unfolding handle_selectedTool using Cons.prems by (cases e) (simp_all add: resolves_def)
  moreover have "list_all offered evs" using Cons.prems(2) by simp
  ultimately show ?case using Cons.IH by simp
qed

text \<open>
  C1. In every state the page can be in (the chosen tool is \<open>null\<close> or one of the offered
  ids, from wherever the session started among such states), if no image is selected or
  the chosen tool id does not resolve to a known tool, \<open>handleProcessImages\<close> shows the
  validation notice and returns the state it was given: no job record is created, no
  volume is removed from the renderer and no callback is scheduled.
\<close>

theorem submit_validates_before_mutation:
  assumes "selectedTool s0 = None \<or> resolves (selectedTool s0)"
    and "list_all offered evs"
    and "filter selected (images (run s0 evs)) = [] \<or> \<not> resolves (selectedTool (run s0 evs))"
  shows "handleProcessImages rnd now (run s0 evs) =
     (alerting ''Please select at least one image and a processing tool'', run s0 evs)"
proof -
  have "selectedTool (run s0 evs) = None \<or> resolves (selectedTool (run s0 evs))"
    using assms(1,2) by (rule run_selectedTool)
  then have "filter selected (images (run s0 evs)) = [] \<or> \<not> truthy (selectedTool (run s0 evs))"
    using assms(3) by (auto simp add: truthy_def)
  then show ?thesis by (rule submit_guard)
qed

text \<open>
  Witness for C1: a submission with no tool chosen, and a submission after the only
  selected scan has been deselected.
\<close>

theorem submit_validates_before_mutation_witness:
  "handleProcessImages ''0.i'' 7 (run (session0\<lparr>selectedTool := None\<rparr>) []) =
     (alerting ''Please select at least one image and a processing tool'',
      session0\<lparr>selectedTool := None\<rparr>) \<and>
   handleProcessImages ''0.i'' 7
       (run session0 [SetSelectedTool ''registration'', ToggleImageSelection ''B'']) =
     (alerting ''Please select at least one image and a processing tool'',
      session0\<lparr>selectedTool := Some ''registration'', images := [scanA, scanB\<lparr>selected := False\<rparr>]\<rparr>)"
proof -
  have a: "selectedTool (session0\<lparr>selectedTool := None\<rparr>) = None \<or>
      resolves (selectedTool (session0\<lparr>selectedTool := None\<rparr>))"
    by simp
  have b: "list_all offered []" by simp
  have c: "filter selected (images (run (session0\<lparr>selectedTool := None\<rparr>) [])) = [] \<or>
      \<not> resolves (selectedTool (run (session0\<lparr>selectedTool := None\<rparr>) []))"
    by (simp add: resolves_def)
  have a': "selectedTool session0 = None \<or> resolves (selectedTool session0)"
    by (simp add: session0_def resolves_def knownTool_def processingTools_def)
  have b': "list_all offered [SetSelectedTool ''registration'', ToggleImageSelection ''B'']"
    by (simp add: knownTool_def processingTools_def)
  have r: "run session0 [SetSelectedTool ''registration'', ToggleImageSelection ''B''] =
      session0\<lparr>selectedTool := Some ''registration'', images := [scanA, scanB\<lparr>selected := False\<rparr>]\<rparr>"
    by (simp add: setSelectedTool_def toggleImageSelection_def ex_defs)
  have c': "filter selected
        (images (run session0 [SetSelectedTool ''registration'', ToggleImageSelection ''B''])) = [] \<or>
      \<not> resolves (selectedTool (run session0 [SetSelectedTool ''registration'', ToggleImageSelection ''B'']))"
    unfolding r by (simp add: ex_defs)
  show ?thesis
    using submit_validates_before_mutation [OF a b c, of "''0.i''" 7]
      submit_validates_before_mutation [OF a' b' c', of "''0.i''" 7, unfolded r]
    unfolding r by simp
qed

section \<open>Clearing the history\<close>

text \<open>
  C3, as amended. \<open>handleClearHistory\<close> empties the history, whatever its size, when the
  user confirms the dialog; when the user declines, the state stays as it is.
\<close>

theorem clear_history_when_confirmed:
  "processingHistory (snd (handleClearHistory True s)) = [] \<and>
   snd (handleClearHistory False s) = s"
  by (simp add: handleClearHistory_def)

text \<open>
  Counterexample to C3 as stated: with the dialog declined, a history of one record is
  not emptied.
\<close>

theorem clear_history_declined_counterexample:
  "processingHistory
     (snd (handleClearHistory False (session0\<lparr>processingHistory := [job ''i'' Pending]\<rparr>)))
   \<noteq> []"
  by (simp add: handleClearHistory_def)

section \<open>Toggling the selection\<close>

text \<open>
  C7, as amended. \<open>toggleImageSelection i\<close> keeps the length of the registry, flips the
  \<open>selected\<close> flag of every image with the id \<open>i\<close> and leaves every other image as it
  was; when no image has the id \<open>i\<close> the state is unchanged and the handler returns
  normally, with no error and no notice.
\<close>

theorem toggle_flips_or_keeps:
  "length (images (snd (toggleImageSelection i s))) = length (images s) \<and>
   (\<forall>k < length (images s).
      images (snd (toggleImageSelection i s)) ! k =
        (if id_image (images s ! k) = i
         then (images s ! k)\<lparr>selected := \<not> selected (images s ! k)\<rparr>
         else images s ! k)) \<and>
   (i \<notin> id_image ` set (images s) \<longrightarrow> toggleImageSelection i s = (quiet, s))"
proof -
  have "i \<notin> id_image ` set (images s) \<Longrightarrow>
     map (\<lambda>img. if id_image img = i then img\<lparr>selected := \<not> selected img\<rparr> else img)
       (images s) = images s"
    by (intro map_idI) auto
  then show ?thesis
    by (simp add: toggleImageSelection_def)
qed

text \<open>Witness for C7: a present id is flipped, an absent id changes nothing.\<close>

theorem toggle_flips_or_keeps_witness:
  "images (snd (toggleImageSelection ''A'' session0)) = [scanA\<lparr>selected := True\<rparr>, scanB] \<and>
   toggleImageSelection ''Z'' session0 = (quiet, session0)"
  using toggle_flips_or_keeps [of "''A''" session0] toggle_flips_or_keeps [of "''Z''" session0]
  by (simp add: ex_defs toggleImageSelection_def)

text \<open>
  Counterexample to C7 as stated: no image has the id \<open>Z\<close>, and the handler neither throws
  nor shows a notice.
\<close>

theorem toggle_absent_counterexample:
  "''Z'' \<notin> id_image ` set (images session0) \<and>
   thrown (fst (toggleImageSelection ''Z'' session0)) = None \<and>
   alerts (fst (toggleImageSelection ''Z'' session0)) = []"
  by (simp add: toggleImageSelection_def quiet_def ex_defs)

section \<open>Viewing an empty result\<close>

text \<open>
  C8. For a record whose result is present with an image list of length 0,
  \<open>handleViewResult\<close> ends with the notice that the result has no image options (after the
  warning about the record's error, if it has one), throws nothing and leaves the state
  as it was; in particular no \<open>loadVolumes\<close> call is recorded.
\<close>

theorem view_empty_result:
  "result item = Some res \<Longrightarrow> imageOptionsArray res = Some [] \<Longrightarrow>
   snd (handleViewResult item after s) = s \<and>
   loads (nv (snd (handleViewResult item after s))) = loads (nv s) \<and>
   thrown (fst (handleViewResult item after s)) = None \<and>
   alerts (fst (handleViewResult item after s)) =
     (if truthy (error item) then [''Process returned error message '' @ the (error item)]
      else [])
     @ [''No image options available in the result'']"
  by (simp add: handleViewResult_def Let_def)

text \<open>Witness for C8: a completed record whose result lists no image.\<close>

theorem view_empty_result_witness:
  "handleViewResult ((job ''i'' Completed)\<lparr>result := Some emptyScene\<rparr>) [] session0 =
     (alerting ''No image options available in the result'', session0)"
proof -
  have r: "result ((job ''i'' Completed)\<lparr>result := Some emptyScene\<rparr>) = Some emptyScene"
    by simp
  have e: "imageOptionsArray emptyScene = Some []"
    by (simp add: emptyScene_def)
  have n: "\<not> truthy (error ((job ''i'' Completed)\<lparr>result := Some emptyScene\<rparr>))"
    by (simp add: job_def truthy_def)
  from view_empty_result [OF r e, of "[]" session0] n show ?thesis
    by (simp add: alerting_def prod_eq_iff)
qed

section \<open>Submission prunes the renderer and keeps the registry\<close>

lemma unselectedIndexes_snoc:
  "unselectedIndexes (imgs @ [x]) =
     (if selected x then [] else [length imgs]) @ unselectedIndexes imgs"
  by (simp add: unselectedIndexes_def)

lemma removeVolumes_unselected:
  "length vs = length imgs \<Longrightarrow> volumes r = vs @ ws \<Longrightarrow>
   removeVolumes (unselectedIndexes imgs) r =
     (None, r\<lparr>volumes := map snd (filter (\<lambda>(img, v). selected img) (zip imgs vs)) @ ws\<rparr>)"
proof (induction imgs arbitrary: vs ws r rule: rev_induct)
  case Nil
  then show ?case by (simp add: unselectedIndexes_def)
next
  case (snoc x imgs)
  from snoc.prems(1) obtain vs' v where vs: "vs = vs' @ [v]" and len: "length vs' = length imgs"
    by (cases vs rule: rev_cases) auto
  show ?case
  proof (cases "selected x")
    case True
    have "volumes r = vs' @ (v # ws)"
      using snoc.prems(2) vs by simp
    from snoc.IH [OF len this] True show ?thesis
      by (simp add: unselectedIndexes_snoc vs len)
  next
    case False
    let ?r = "r\<lparr>volumes := vs' @ ws\<rparr>"
    have rm: "removeVolumeByIndex (length imgs) r = Inr ?r"
      using snoc.prems(2) vs len by (simp add: removeVolumeByIndex_def)
    have "volumes ?r = vs' @ ws" by simp
    from snoc.IH [OF len this] rm False show ?thesis
      by (simp add: unselectedIndexes_snoc vs len)
  qed
qed

lemma kept_volume_ids:
  "map vid vs = map id_image imgs \<Longrightarrow>
   map vid (map snd (filter (\<lambda>(img, v). selected img) (zip imgs vs))) =
     map id_image (filter selected imgs)"
proof (induction imgs arbitrary: vs)
  case Nil
  then show ?case by simp
next
  case (Cons a imgs)
  then show ?case by (cases vs) auto
qed

text \<open>
  C10. \<open>handleProcessImages\<close> never changes the image registry: the list \<open>images\<close> is
  the same afterwards, entry by entry. When the submission passes validation and the
  renderer holds the volumes of the registry's images in the registry's order, the
  handler returns normally, the live renderer is left with the volumes of the selected
  images only, and the snapshot stored in the new record is taken from that pruned
  renderer; the registry then still lists the unselected images.
\<close>

theorem submit_keeps_registry:
  "images (snd (handleProcessImages rnd now s)) = images s \<and>
   (filter selected (images s) \<noteq> [] \<and> truthy (selectedTool s) \<and>
    map vid (volumes (nv s)) = map id_image (images s) \<longrightarrow>
      fst (handleProcessImages rnd now s) = quiet \<and>
      map vid (volumes (nv (snd (handleProcessImages rnd now s)))) =
        map id_image (filter selected (images s)) \<and>
      nvDocument (hd (processingHistory (snd (handleProcessImages rnd now s)))) =
        json (nv (snd (handleProcessImages rnd now s))))"
proof (intro conjI impI)
  show "images (snd (handleProcessImages rnd now s)) = images s"
    by (simp add: handleProcessImages_def Let_def split: prod.splits option.splits)
next
  assume a: "filter selected (images s) \<noteq> [] \<and> truthy (selectedTool s) \<and>
    map vid (volumes (nv s)) = map id_image (images s)"
  then have len: "length (volumes (nv s)) = length (images s)"
    by (metis length_map)
  have "volumes (nv s) = volumes (nv s) @ []" by simp
  from removeVolumes_unselected [OF len this]
  have rm: "removeVolumes (unselectedIndexes (images s)) (nv s) =
     (None, (nv s)\<lparr>volumes := map snd (filter (\<lambda>(img, v). selected img)
        (zip (images s) (volumes (nv s))))\<rparr>)"
    by simp
  show "fst (handleProcessImages rnd now s) = quiet"
    using a rm by (simp add: handleProcessImages_def Let_def)
  show "map vid (volumes (nv (snd (handleProcessImages rnd now s)))) =
        map id_image (filter selected (images s))"
    using a rm kept_volume_ids [of "volumes (nv s)" "images s"]
    by (simp add: handleProcessImages_def Let_def)
  show "nvDocument (hd (processingHistory (snd (handleProcessImages rnd now s)))) =
        json (nv (snd (handleProcessImages rnd now s)))"
    using a rm by (simp add: handleProcessImages_def Let_def)
qed

text \<open>
  Witness for C10: after a submission in the example session the registry still lists
  scan \<open>A\<close>, whose volume is no longer in the renderer.
\<close>

theorem submit_keeps_registry_witness:
  "images (snd (handleProcessImages ''0.i'' 7 session0)) = [scanA, scanB] \<and>
   map vid (volumes (nv (snd (handleProcessImages ''0.i'' 7 session0)))) = [''B''] \<and>
   id_image scanA \<notin> set (map vid (volumes (nv (snd (handleProcessImages ''0.i'' 7 session0)))))"
proof -
  have h: "filter selected (images session0) \<noteq> [] \<and> truthy (selectedTool session0) \<and>
      map vid (volumes (nv session0)) = map id_image (images session0)"
    by (simp add: ex_defs truthy_def)
  from submit_keeps_registry [of "''0.i''" 7 session0] h
  have "images (snd (handleProcessImages ''0.i'' 7 session0)) = images session0 \<and>
      map vid (volumes (nv (snd (handleProcessImages ''0.i'' 7 session0)))) =
        map id_image (filter selected (images session0))"
    by blast
  then show ?thesis by (simp add: ex_defs)
qed

section \<open>Making one volume visible\<close>

lemma volumeIndex_bounds: "- 1 \<le> volumeIndex i vs \<and> volumeIndex i vs < int (length vs)"
  by (induction vs) (auto simp add: Let_def)

lemma volumeIndex_hit: "0 \<le> volumeIndex i vs \<Longrightarrow> vid (vs ! nat (volumeIndex i vs)) = i"
proof (induction vs)
  case Nil
  then show ?case by simp
next
  case (Cons v vs)
  then show ?case
    by (auto simp add: Let_def nat_add_distrib split: if_splits)
qed

lemma volumeIndex_cong: "map vid vs = map vid ws \<Longrightarrow> volumeIndex i vs = volumeIndex i ws"
proof (induction vs arbitrary: ws)
  case Nil
  then show ?case by simp
next
  case (Cons v vs)
  then show ?case by (cases ws) (auto simp add: Let_def)
qed

lemma volumeIndex_found: "i \<in> vid ` set vs \<Longrightarrow> 0 \<le> volumeIndex i vs"
  by (induction vs) (auto simp add: Let_def)

lemma setOpacity_ok:
  assumes "0 \<le> k" "k < int (length (volumes r))"
  shows "setOpacity k v r =
     Inr (r\<lparr>volumes := (volumes r)[nat k := (volumes r ! nat k)\<lparr>opacity := v\<rparr>]\<rparr>)"
  using assms by (simp add: setOpacity_def)

lemma map_vid_update: "map vid (vs[p := (vs ! p)\<lparr>opacity := v\<rparr>]) = map vid vs"
  by (cases "p < length vs") (simp_all add: map_update list_update_same_conv list_update_beyond)

lemma setOpacities_resolved:
  assumes "\<forall>img \<in> set imgs. 0 \<le> getVolumeIndexByID (id_image img) r"
    and "distinct (map id_image imgs)"
  shows "fst (setOpacities i k imgs r) = None \<and>
     map vid (volumes (snd (setOpacities i k imgs r))) = map vid (volumes r) \<and>
     redraws (snd (setOpacities i k imgs r)) = redraws r \<and>
     loads (snd (setOpacities i k imgs r)) = loads r \<and>
     (\<forall>j < length imgs.
        opacity (volumes (snd (setOpacities i k imgs r)) ! slot r (imgs ! j)) =
          (if k + j = i then 1 else 0)) \<and>
     (\<forall>p. p \<notin> slot r ` set imgs \<longrightarrow>
        volumes (snd (setOpacities i k imgs r)) ! p = volumes r ! p)"
  using assms
proof (induction imgs arbitrary: k r)
  case Nil
  then show ?case by simp
next
  case (Cons img imgs)
  let ?k0 = "getVolumeIndexByID (id_image img) r"
  let ?v = "if k = i then 1 else 0 :: real"
  let ?r1 = "r\<lparr>volumes := (volumes r)[nat ?k0 := (volumes r ! nat ?k0)\<lparr>opacity := ?v\<rparr>]\<rparr>"
  have k0: "0 \<le> ?k0" "?k0 < int (length (volumes r))"
    using Cons.prems(1) volumeIndex_bounds [of "id_image img" "volumes r"]
    by (simp_all add: getVolumeIndexByID_def)
  have step: "setOpacity ?k0 ?v r = Inr ?r1"
    using k0 by (rule setOpacity_ok)
  have ids: "map vid (volumes ?r1) = map vid (volumes r)"
    by (simp add: map_vid_update)
  have same: "getVolumeIndexByID a ?r1 = getVolumeIndexByID a r" for a
    using volumeIndex_cong [OF ids, of a] by (simp add: getVolumeIndexByID_def)
  have slots: "slot ?r1 x = slot r x" for x
    by (simp only: slot_def same)
  have res: "\<forall>x \<in> set imgs. 0 \<le> getVolumeIndexByID (id_image x) ?r1"
    using Cons.prems(1) by (simp only: same) simp
  have dist: "distinct (map id_image imgs)"
    using Cons.prems(2) by simp
  note IH = Cons.IH [OF res dist, of "Suc k"]
  have unfold: "setOpacities i k (img # imgs) r = setOpacities i (Suc k) imgs ?r1"
    using step by simp
  have fresh: "slot r img \<notin> slot r ` set imgs"
  proof
    assume "slot r img \<in> slot r ` set imgs"
    then obtain x where x: "x \<in> set imgs" "slot r x = slot r img" by auto
    have "0 \<le> getVolumeIndexByID (id_image x) r"
      using Cons.prems(1) x(1) by simp
    then have "vid (volumes r ! slot r x) = id_image x"
      unfolding slot_def getVolumeIndexByID_def by (rule volumeIndex_hit)
    moreover have "vid (volumes r ! slot r img) = id_image img"
      using k0(1) unfolding slot_def getVolumeIndexByID_def by (rule volumeIndex_hit)
    ultimately have "id_image x = id_image img" using x(2) by simp
    then show False using Cons.prems(2) x(1) by (auto simp add: image_iff)
  qed
  have at0: "opacity (volumes (snd (setOpacities i (Suc k) imgs ?r1)) ! slot r img) = ?v"
  proof -
    have "volumes (snd (setOpacities i (Suc k) imgs ?r1)) ! slot r img = volumes ?r1 ! slot r img"
      using IH fresh by (simp add: slots)
    also have "opacity \<dots> = ?v"
      using k0 by (simp add: slot_def)
    finally show ?thesis by simp
  qed
  show ?case
  proof (intro conjI allI impI)
    show "fst (setOpacities i k (img # imgs) r) = None"
      using IH unfold by simp
    show "map vid (volumes (snd (setOpacities i k (img # imgs) r))) = map vid (volumes r)"
      using IH unfold ids by simp
    show "redraws (snd (setOpacities i k (img # imgs) r)) = redraws r"
      using IH unfold by simp
    show "loads (snd (setOpacities i k (img # imgs) r)) = loads r"
      using IH unfold by simp
  next
    fix j assume j: "j < length (img # imgs)"
    show "opacity (volumes (snd (setOpacities i k (img # imgs) r)) ! slot r ((img # imgs) ! j)) =
          (if k + j = i then 1 else 0)"
    proof (cases j)
      case 0
      then show ?thesis using at0 unfold by simp
    next
      case (Suc j')
      then have "j' < length imgs" using j by simp
      with IH have "opacity (volumes (snd (setOpacities i (Suc k) imgs ?r1)) ! slot ?r1 (imgs ! j')) =
          (if Suc k + j' = i then 1 else 0)"
        by blast
      then show ?thesis using Suc unfold by (simp add: slots)
    qed
  next
    fix p assume p: "p \<notin> slot r ` set (img # imgs)"
    then have "p \<notin> slot ?r1 ` set imgs" and ne: "p \<noteq> slot r img"
      by (simp_all add: slots)
    with IH have "volumes (snd (setOpacities i (Suc k) imgs ?r1)) ! p = volumes ?r1 ! p"
      by blast
    also have "\<dots> = volumes r ! p"
      using ne by (simp add: slot_def)
    finally show "volumes (snd (setOpacities i k (img # imgs) r)) ! p = volumes r ! p"
      using unfold by simp
  qed
qed

lemma slot_cong: "map vid (volumes r') = map vid (volumes r) \<Longrightarrow> slot r' x = slot r x"
  using volumeIndex_cong [of "volumes r'" "volumes r" "id_image x"]
  by (simp add: slot_def getVolumeIndexByID_def)

lemma setOpacities_returns:
  assumes "\<forall>img \<in> set imgs. 0 \<le> getVolumeIndexByID (id_image img) r"
    and "distinct (map id_image imgs)"
  shows "fst (setOpacities i k imgs r) = None"
  using setOpacities_resolved [OF assms, of i k] by (rule conjunct1)

lemma setOpacities_ids:
  assumes "\<forall>img \<in> set imgs. 0 \<le> getVolumeIndexByID (id_image img) r"
    and "distinct (map id_image imgs)"
  shows "map vid (volumes (snd (setOpacities i k imgs r))) = map vid (volumes r)"
  by (rule setOpacities_resolved [OF assms, of i k, THEN conjunct2, THEN conjunct1])

lemma setOpacities_redraws:
  assumes "\<forall>img \<in> set imgs. 0 \<le> getVolumeIndexByID (id_image img) r"
    and "distinct (map id_image imgs)"
  shows "redraws (snd (setOpacities i k imgs r)) = redraws r"
  by (rule setOpacities_resolved [OF assms, of i k, THEN conjunct2, THEN conjunct2,
        THEN conjunct1])

lemma setOpacities_opacity:
  assumes "\<forall>img \<in> set imgs. 0 \<le> getVolumeIndexByID (id_image img) r"
    and "distinct (map id_image imgs)"
    and "j < length imgs"
  shows "opacity (volumes (snd (setOpacities i k imgs r)) ! slot r (imgs ! j)) =
          (if k + j = i then 1 else 0)"
  by (rule setOpacities_resolved [OF assms(1,2), of i k, THEN conjunct2, THEN conjunct2,
        THEN conjunct2, THEN conjunct2, THEN conjunct1, rule_format, OF assms(3)])

lemma setOpacities_others:
  assumes "\<forall>img \<in> set imgs. 0 \<le> getVolumeIndexByID (id_image img) r"
    and "distinct (map id_image imgs)"
    and "p \<notin> slot r ` set imgs"
  shows "volumes (snd (setOpacities i k imgs r)) ! p = volumes r ! p"
  by (rule setOpacities_resolved [OF assms(1,2), of i k, THEN conjunct2, THEN conjunct2,
        THEN conjunct2, THEN conjunct2, THEN conjunct2, rule_format, OF assms(3)])

lemma setOpacities_again:
  assumes res: "\<forall>img \<in> set imgs. 0 \<le> getVolumeIndexByID (id_image img) r"
    and dist: "distinct (map id_image imgs)"
    and r1: "volumes r1 = volumes (snd (setOpacities i k imgs r))"
  shows "fst (setOpacities i k imgs r1) = None \<and>
     volumes (snd (setOpacities i k imgs r1)) = volumes r1"
proof -
  have ids1: "map vid (volumes r1) = map vid (volumes r)"
    using setOpacities_ids [OF res dist, of i k] by (simp only: r1)
  have res1: "\<forall>img \<in> set imgs. 0 \<le> getVolumeIndexByID (id_image img) r1"
    using res by (simp add: getVolumeIndexByID_def volumeIndex_cong [OF ids1])
  let ?vs2 = "volumes (snd (setOpacities i k imgs r1))"
  have ids2: "map vid ?vs2 = map vid (volumes r1)"
    by (rule setOpacities_ids [OF res1 dist])
  have len: "length ?vs2 = length (volumes r1)"
    using arg_cong [OF ids2, of length] by (simp only: length_map)
  have same: "?vs2 ! p = volumes r1 ! p" if p: "p < length (volumes r1)" for p
  proof (cases "p \<in> slot r1 ` set imgs")
    case False
    then show ?thesis by (rule setOpacities_others [OF res1 dist])
  next
    case True
    then obtain j where j: "j < length imgs" "p = slot r1 (imgs ! j)"
      by (auto simp add: in_set_conv_nth)
    have o2: "opacity (?vs2 ! p) = (if k + j = i then 1 else 0)"
      unfolding j(2) by (rule setOpacities_opacity [OF res1 dist j(1)])
    have "slot r1 (imgs ! j) = slot r (imgs ! j)"
      by (rule slot_cong [OF ids1])
    then have o1: "opacity (volumes r1 ! p) = (if k + j = i then 1 else 0)"
      using setOpacities_opacity [OF res dist j(1), of i k] by (simp only: j(2) r1)
    have "map vid ?vs2 ! p = map vid (volumes r1) ! p"
      by (simp only: ids2)
    then have v: "vid (?vs2 ! p) = vid (volumes r1 ! p)"
      using p len by simp
    show ?thesis
      by (rule volume.equality) (simp_all add: o1 o2 v)
  qed
  have "?vs2 = volumes r1"
  proof (rule nth_equalityI)
    show "length ?vs2 = length (volumes r1)" by (rule len)
  next
    fix p assume "p < length ?vs2"
    then have "p < length (volumes r1)" by (simp only: len)
    then show "?vs2 ! p = volumes r1 ! p" by (rule same)
  qed
  then show ?thesis
    using setOpacities_returns [OF res1 dist, of i k] by simp
qed

text \<open>
  C9, as amended. In a registry whose image ids are pairwise distinct and all resolve to
  a volume of the renderer, \<open>handleVisibility i\<close> for a valid index \<open>i\<close> returns
  normally, sets the cursor to \<open>i\<close>, asks for one redraw, keeps the renderer's volumes
  and their order, and leaves opacity 1 on the volume of image \<open>i\<close> and opacity 0 on the
  volume of every other image; a second call with the same index returns normally too and
  leaves cursor and volumes as they are.
\<close>

theorem setActive_shows_one:
  assumes "i < length (images s)"
    and "distinct (map id_image (images s))"
    and "id_image ` set (images s) \<subseteq> vid ` set (volumes (nv s))"
  shows "fst (handleVisibility i s) = quiet \<and>
     currentImageIndex (snd (handleVisibility i s)) = Some i \<and>
     images (snd (handleVisibility i s)) = images s \<and>
     redraws (nv (snd (handleVisibility i s))) = Suc (redraws (nv s)) \<and>
     map vid (volumes (nv (snd (handleVisibility i s)))) = map vid (volumes (nv s)) \<and>
     (\<forall>j < length (images s).
        opacity (volumes (nv (snd (handleVisibility i s))) !
            nat (getVolumeIndexByID (id_image (images s ! j)) (nv (snd (handleVisibility i s)))))
          = (if j = i then 1 else 0)) \<and>
     fst (handleVisibility i (snd (handleVisibility i s))) = quiet \<and>
     currentImageIndex (snd (handleVisibility i (snd (handleVisibility i s)))) = Some i \<and>
     volumes (nv (snd (handleVisibility i (snd (handleVisibility i s))))) =
       volumes (nv (snd (handleVisibility i s)))"
proof -
  have res: "\<forall>img \<in> set (images s). 0 \<le> getVolumeIndexByID (id_image img) (nv s)"
  proof
    fix img assume "img \<in> set (images s)"
    then have "id_image img \<in> vid ` set (volumes (nv s))"
      using assms(3) by blast
    then show "0 \<le> getVolumeIndexByID (id_image img) (nv s)"
      unfolding getVolumeIndexByID_def by (rule volumeIndex_found)
  qed
  define p where "p = setOpacities i 0 (images s) (nv s)"
  define s1 where "s1 = s\<lparr>currentImageIndex := Some i, nv := updateGLVolume (snd p)\<rparr>"
  have fstA: "fst p = None"
    unfolding p_def by (rule setOpacities_returns [OF res assms(2)])
  obtain r' where p: "p = (None, r')"
    using fstA by (cases p) simp
  have hv: "handleVisibility i s = (quiet, s1)"
    using p by (simp add: handleVisibility_def s1_def p_def [symmetric])
  have vols1: "volumes (nv s1) = volumes (snd (setOpacities i 0 (images s) (nv s)))"
    by (simp add: s1_def p_def updateGLVolume_def)
  have ids1: "map vid (volumes (nv s1)) = map vid (volumes (nv s))"
    using setOpacities_ids [OF res assms(2), of i 0] by (simp only: vols1)
  have sl: "nat (getVolumeIndexByID (id_image x) (nv s1)) = slot (nv s) x" for x
    using slot_cong [OF ids1, of x] by (simp add: slot_def)
  note B = setOpacities_again [OF res assms(2) vols1]
  have imgs1: "images s1 = images s" by (simp add: s1_def)
  define q where "q = setOpacities i 0 (images s) (nv s1)"
  have fstB: "fst q = None" and volsB: "volumes (snd q) = volumes (nv s1)"
    using B by (simp_all only: q_def)
  obtain r'' where q: "q = (None, r'')"
    using fstB by (cases q) simp
  have hv2: "handleVisibility i s1 =
      (quiet, s1\<lparr>currentImageIndex := Some i, nv := updateGLVolume (snd q)\<rparr>)"
    using q by (simp add: handleVisibility_def imgs1 q_def [symmetric])
  have c4: "redraws (nv s1) = Suc (redraws (nv s))"
    using setOpacities_redraws [OF res assms(2), of i 0]
    by (simp add: s1_def p_def updateGLVolume_def)
  have c6: "\<forall>j < length (images s).
        opacity (volumes (nv s1) ! nat (getVolumeIndexByID (id_image (images s ! j)) (nv s1)))
          = (if j = i then 1 else 0)"
  proof (intro allI impI)
    fix j assume j: "j < length (images s)"
    show "opacity (volumes (nv s1) ! nat (getVolumeIndexByID (id_image (images s ! j)) (nv s1)))
          = (if j = i then 1 else 0)"
      using setOpacities_opacity [OF res assms(2) j, of i 0]
      by (simp only: sl vols1 add_0)
  qed
  have c2: "currentImageIndex s1 = Some i" by (simp add: s1_def)
  have c7: "fst (handleVisibility i s1) = quiet" by (simp add: hv2)
  have c8: "currentImageIndex (snd (handleVisibility i s1)) = Some i" by (simp add: hv2)
  have c9: "volumes (nv (snd (handleVisibility i s1))) = volumes (nv s1)"
    using volsB by (simp add: hv2 updateGLVolume_def)
  show ?thesis
    unfolding hv fst_conv snd_conv
    by (intro conjI refl c2 imgs1 c4 ids1 c6 c7 c8 c9)
qed

text \<open>Witness for C9: the second scan of the example session is made the visible one.\<close>

theorem setActive_shows_one_witness:
  "1 < length (images session0) \<and> distinct (map id_image (images session0)) \<and>
   fst (handleVisibility 1 session0) = quiet \<and>
   currentImageIndex (snd (handleVisibility 1 session0)) = Some 1 \<and>
   redraws (nv (snd (handleVisibility 1 session0))) = 1 \<and>
   opacity (volumes (nv (snd (handleVisibility 1 session0))) !
      nat (getVolumeIndexByID ''B'' (nv (snd (handleVisibility 1 session0))))) = 1 \<and>
   opacity (volumes (nv (snd (handleVisibility 1 session0))) !
      nat (getVolumeIndexByID ''A'' (nv (snd (handleVisibility 1 session0))))) = 0 \<and>
   volumes (nv (snd (handleVisibility 1 (snd (handleVisibility 1 session0))))) =
     volumes (nv (snd (handleVisibility 1 session0)))"
proof -
  have a: "1 < length (images session0)" by (simp add: ex_defs)
  have b: "distinct (map id_image (images session0))" by (simp add: ex_defs)
  have c: "id_image ` set (images session0) \<subseteq> vid ` set (volumes (nv session0))"
    by (simp add: ex_defs)
  note T = setActive_shows_one [OF a b c]
  have r: "redraws (nv session0) = 0" by (simp add: ex_defs)
  have i0: "id_image (images session0 ! 0) = ''A''" and i1: "id_image (images session0 ! Suc 0) = ''B''"
    by (simp_all add: ex_defs)
  have l: "length (images session0) = 2" by (simp add: ex_defs)
  from T have o: "\<forall>j < length (images session0).
        opacity (volumes (nv (snd (handleVisibility 1 session0))) !
            nat (getVolumeIndexByID (id_image (images session0 ! j)) (nv (snd (handleVisibility 1 session0)))))
          = (if j = 1 then 1 else 0)"
    by blast
  from o [rule_format, of 0] o [rule_format, of 1] have
    "opacity (volumes (nv (snd (handleVisibility 1 session0))) !
      nat (getVolumeIndexByID ''B'' (nv (snd (handleVisibility 1 session0))))) = 1"
    "opacity (volumes (nv (snd (handleVisibility 1 session0))) !
      nat (getVolumeIndexByID ''A'' (nv (snd (handleVisibility 1 session0))))) = 0"
    by (simp_all add: l i0 i1)
  then show ?thesis using T a b r by simp
qed

text \<open>The example session after one submission: the volume of scan \<open>A\<close> is gone.\<close>

lemma pruned_session:
  "snd (handleProcessImages ''0.i'' 7 session0) =
     session0\<lparr>nv := viewer0\<lparr>volumes := [\<lparr>vid = ''B'', opacity = 1\<rparr>]\<rparr>,
       processingHistory := [\<lparr>id_item = ''i'', timestamp = 7,
         nvDocument = \<lparr>imageOptionsArray = Some [''B'']\<rparr>, toolName = ''Segmentation'',
         status = Pending, result = None, error = None\<rparr>],
       pending := [''i'']\<rparr>"
  by (simp add: ex_defs handleProcessImages_def truthy_def Let_def
      unselectedIndexes_def removeVolumeByIndex_def toolNameOf_def processingTools_def json_def
      newId_def upt_rec)

text \<open>
  Counterexample to C9 as stated: after a submission has removed the volume of the
  unselected scan \<open>A\<close>, the registry still has two images, the id of \<open>A\<close> resolves to
  \<open>-1\<close>, and \<open>handleVisibility 1\<close> ends with a \<open>TypeError\<close> from \<open>setOpacity\<close>
  without asking for a redraw.
\<close>

theorem setActive_after_submit_counterexample:
  "1 < length (images (snd (handleProcessImages ''0.i'' 7 session0))) \<and>
   getVolumeIndexByID ''A'' (nv (snd (handleProcessImages ''0.i'' 7 session0))) = - 1 \<and>
   thrown (fst (handleVisibility 1 (snd (handleProcessImages ''0.i'' 7 session0)))) = Some ''TypeError'' \<and>
   redraws (nv (snd (handleVisibility 1 (snd (handleProcessImages ''0.i'' 7 session0))))) =
     redraws (nv (snd (handleProcessImages ''0.i'' 7 session0)))"
  by (simp add: pruned_session)
    (simp add: ex_defs handleVisibility_def getVolumeIndexByID_def setOpacity_def throwing_def)

section \<open>Sessions: job ids and the status of a record\<close>

lemma handle_cases:
  obtains (same) "processingHistory (snd (handle e s)) = processingHistory s"
      "pending (snd (handle e s)) = pending s"
  | (submit) rnd now item where "e = ProcessImages rnd now" "id_item item = newId rnd"
      "status item = Pending"
      "processingHistory (snd (handle e s)) = item # processingHistory s"
      "pending (snd (handle e s)) = pending s @ [newId rnd]"
  | (settle) k out where "e = Settle k out" "k < length (pending s)"
      "processingHistory (snd (handle e s)) = resolve (pending s ! k) out (processingHistory s)"
      "pending (snd (handle e s)) = take k (pending s) @ drop (Suc k) (pending s)"
  | (delete) i where "e = DeleteHistoryItem i"
      "processingHistory (snd (handle e s)) = filter (\<lambda>item. id_item item \<noteq> i) (processingHistory s)"
      "pending (snd (handle e s)) = pending s"
  | (clear) "e = ClearHistory True" "processingHistory (snd (handle e s)) = []"
      "pending (snd (handle e s)) = pending s"
proof (cases e)
  case (FileUpload k)
  then show ?thesis by (intro same) (simp_all add: handleFileUpload_def)
next
  case (FileLoaded i n)
  then show ?thesis by (intro same) (simp_all add: fileLoaded_def)
next
  case (ToggleImageSelection i)
  then show ?thesis by (intro same) (simp_all add: toggleImageSelection_def)
next
  case (SetSelectedTool t)
  then show ?thesis by (intro same) (simp_all add: setSelectedTool_def)
next
  case (ProcessImages rnd now)
  show ?thesis
  proof (cases "length (filter selected (images s)) = 0 \<or> \<not> truthy (selectedTool s)")
    case True
    then show ?thesis using ProcessImages
      by (intro same) (simp_all add: handleProcessImages_def Let_def)
  next
    case False
    obtain err r where rm: "removeVolumes (unselectedIndexes (images s)) (nv s) = (err, r)"
      by (cases "removeVolumes (unselectedIndexes (images s)) (nv s)")
    show ?thesis
    proof (cases err)
      case None
      let ?item = "\<lparr>id_item = newId rnd, timestamp = now, nvDocument = json r,
                     toolName = toolNameOf (the (selectedTool s)),
                     status = Pending, result = None, error = None\<rparr>"
      show ?thesis
        using ProcessImages False rm None
        by (intro submit [of rnd now ?item]) (simp_all add: handleProcessImages_def Let_def)
    next
      case (Some a)
      then show ?thesis using ProcessImages False rm
        by (intro same) (simp_all add: handleProcessImages_def Let_def)
    qed
  qed
next
  case (Settle k out)
  show ?thesis
  proof (cases "k < length (pending s)")
    case True
    then show ?thesis using Settle
      by (intro settle [of k out]) (simp_all add: settle_def)
  next
    case False
    then show ?thesis using Settle
      by (intro same) (simp_all add: settle_def)
  qed
next
  case (ViewResult item after)
  then show ?thesis
    by (intro same) (simp_all add: handleViewResult_def Let_def split: option.splits)
next
  case (DeleteHistoryItem i)
  then show ?thesis by (intro delete [of i]) (simp_all add: handleDeleteHistoryItem_def)
next
  case (ClearHistory c)
  then show ?thesis
    by (cases c) (simp_all add: handleClearHistory_def clear same)
next
  case (Visibility i)
  then show ?thesis
    by (intro same) (simp_all add: handleVisibility_def split: prod.splits option.splits)
qed

lemma same_id_same_item:
  "distinct (map id_item h) \<Longrightarrow> x \<in> set h \<Longrightarrow> y \<in> set h \<Longrightarrow> id_item x = id_item y \<Longrightarrow> x = y"
  by (auto simp add: distinct_map dest: inj_onD)

lemma resolve_ids: "map id_item (resolve j out h) = map id_item h"
  by (cases out) (simp_all add: comp_def if_distrib cong: if_cong)

lemma resolve_member:
  "x' \<in> set (resolve j out h) \<Longrightarrow>
   \<exists>x \<in> set h. id_item x' = id_item x \<and> (id_item x \<noteq> j \<longrightarrow> x' = x)"
  by (cases out) (auto split: if_splits)

lemma not_jobId: "i \<notin> jobIds s \<Longrightarrow> x \<in> set (processingHistory s) \<Longrightarrow> id_item x \<noteq> i"
  unfolding jobIds_def by blast

lemma step_ids:
  "jobIds (snd (handle e s)) \<subseteq> jobIds s \<union> set (drawn [e]) \<and>
   set (pending (snd (handle e s))) \<subseteq> set (pending s) \<union> set (drawn [e])"
proof (cases e s rule: handle_cases)
  case same
  then show ?thesis by (simp add: jobIds_def)
next
  case (submit rnd now item)
  then show ?thesis by (auto simp add: jobIds_def)
next
  case (settle k out)
  have "set (take k (pending s) @ drop (Suc k) (pending s)) \<subseteq> set (pending s)"
    using set_take_subset [of k "pending s"] set_drop_subset [of "Suc k" "pending s"] by auto
  moreover have "id_item ` set (resolve (pending s ! k) out (processingHistory s)) =
      id_item ` set (processingHistory s)"
    using resolve_ids [of "pending s ! k" out "processingHistory s"]
    by (metis set_map)
  ultimately show ?thesis using settle by (simp add: jobIds_def)
next
  case (delete i)
  then show ?thesis by (auto simp add: jobIds_def)
next
  case clear
  then show ?thesis by (simp add: jobIds_def)
qed

lemma pending_removed:
  assumes "distinct ps" "k < length ps"
  shows "distinct (take k ps @ drop (Suc k) ps)"
    and "ps ! k \<notin> set (take k ps @ drop (Suc k) ps)"
    and "set (take k ps @ drop (Suc k) ps) \<subseteq> set ps"
proof -
  have ps: "ps = take k ps @ ps ! k # drop (Suc k) ps"
    using assms(2) by (rule id_take_nth_drop)
  have d: "distinct (take k ps @ ps ! k # drop (Suc k) ps)"
    using assms(1) ps by simp
  from d show "distinct (take k ps @ drop (Suc k) ps)" by simp
  from d show "ps ! k \<notin> set (take k ps @ drop (Suc k) ps)" by simp
  show "set (take k ps @ drop (Suc k) ps) \<subseteq> set ps"
    using set_take_subset [of k ps] set_drop_subset [of "Suc k" ps] by auto
qed

lemma step_settledApart:
  assumes inv: "settledApart s"
    and fresh: "set (drawn [e]) \<inter> (jobIds s \<union> set (pending s)) = {}"
  shows "settledApart (snd (handle e s))"
proof (cases e s rule: handle_cases)
  case same
  then show ?thesis using inv by (simp add: settledApart_def)
next
  case (submit rnd now item)
  have new: "newId rnd \<notin> jobIds s" "newId rnd \<notin> set (pending s)"
    using fresh submit(1) by simp_all
  have dp: "distinct (pending s)" and dh: "distinct (map id_item (processingHistory s))"
    and third: "\<And>x. x \<in> set (processingHistory s) \<Longrightarrow> status x \<noteq> Pending \<Longrightarrow>
          id_item x \<notin> set (pending s)"
    using inv by (auto simp add: settledApart_def)
  have a: "distinct (map id_item (item # processingHistory s))"
    using dh new(1) submit(2) by (simp add: jobIds_def)
  have b: "distinct (pending s @ [newId rnd])"
    using dp new(2) by simp
  have c: "id_item x \<notin> set (pending s @ [newId rnd])"
    if "x \<in> set (item # processingHistory s)" "status x \<noteq> Pending" for x
  proof -
    from that submit(3) have x: "x \<in> set (processingHistory s)" by auto
    then have "id_item x \<noteq> newId rnd" using new(1) by (rule not_jobId [rotated])
    then show ?thesis using third [OF x that(2)] by simp
  qed
  show ?thesis
    unfolding settledApart_def submit(4,5) using a b c by blast
next
  case (settle k out)
  let ?j = "pending s ! k"
  have dp: "distinct (pending s)" and dh: "distinct (map id_item (processingHistory s))"
    and third: "\<And>x. x \<in> set (processingHistory s) \<Longrightarrow> status x \<noteq> Pending \<Longrightarrow>
          id_item x \<notin> set (pending s)"
    using inv by (auto simp add: settledApart_def)
  note P = pending_removed [OF dp settle(2)]
  have "id_item x' \<notin> set (take k (pending s) @ drop (Suc k) (pending s))"
    if x': "x' \<in> set (resolve ?j out (processingHistory s))" and st: "status x' \<noteq> Pending" for x'
  proof -
    from resolve_member [OF x'] obtain x where x: "x \<in> set (processingHistory s)"
        "id_item x' = id_item x" "id_item x \<noteq> ?j \<longrightarrow> x' = x"
      by blast
    show ?thesis
    proof (cases "id_item x = ?j")
      case True
      then show ?thesis using P(2) x(2) by simp
    next
      case False
      then have "x' = x" using x(3) by simp
      then have "id_item x' \<notin> set (pending s)" using third [OF x(1)] st by simp
      then show ?thesis using P(3) by blast
    qed
  qed
  then show ?thesis
    unfolding settledApart_def settle(3,4)
    using P(1) dh by (simp only: resolve_ids) blast
next
  case (delete i)
  then show ?thesis using inv
    by (auto simp add: settledApart_def distinct_map_filter)
next
  case clear
  then show ?thesis using inv by (simp add: settledApart_def)
qed

lemma step_stable:
  assumes inv: "settledApart s"
    and fresh: "set (drawn [e]) \<inter> (jobIds s \<union> set (pending s)) = {}"
    and it: "item \<in> set (processingHistory s)" "status item \<noteq> Pending"
    and it': "item' \<in> set (processingHistory (snd (handle e s)))" "id_item item' = id_item item"
  shows "item' = item"
proof -
  have dh: "distinct (map id_item (processingHistory s))"
    using inv by (simp add: settledApart_def)
  have np: "id_item item \<notin> set (pending s)"
    using inv it by (auto simp add: settledApart_def)
  have old: "x \<in> set (processingHistory s) \<Longrightarrow> id_item x = id_item item \<Longrightarrow> x = item" for x
    using same_id_same_item [OF dh _ it(1)] by blast
  show ?thesis
  proof (cases e s rule: handle_cases)
    case same
    then show ?thesis using it' old by simp
  next
    case (submit rnd now x)
    have "newId rnd \<notin> jobIds s" using fresh submit(1) by simp
    then have "id_item item \<noteq> newId rnd" using it(1) by (rule not_jobId)
    then have "item' \<noteq> x" using it'(2) submit(2) by auto
    then have "item' \<in> set (processingHistory s)"
      using it'(1) submit(4) by simp
    then show ?thesis using it'(2) by (rule old)
  next
    case (settle k out)
    from it'(1) have "item' \<in> set (resolve (pending s ! k) out (processingHistory s))"
      by (simp only: settle(3))
    from resolve_member [OF this] obtain x where x: "x \<in> set (processingHistory s)"
        "id_item item' = id_item x" "id_item x \<noteq> pending s ! k \<longrightarrow> item' = x"
      by blast
    have "x = item" using x(1,2) it'(2) old by simp
    moreover have "id_item item \<noteq> pending s ! k"
      using np settle(2) by (metis nth_mem)
    ultimately show ?thesis using x(3) by simp
  next
    case (delete i)
    then have "item' \<in> set (processingHistory s)" using it'(1) by simp
    then show ?thesis using it'(2) by (rule old)
  next
    case clear
    then show ?thesis using it'(1) by simp
  qed
qed

lemma created_pending:
  "\<forall>x \<in> set (processingHistory (snd (handleProcessImages rnd now s))).
     x \<in> set (processingHistory s) \<or>
     status x = Pending \<and> result x = None \<and> error x = None"
  by (simp add: handleProcessImages_def Let_def split: prod.splits option.splits)

lemma settled_terminal:
  "\<forall>x \<in> set (processingHistory (snd (settle k out s))).
     x \<in> set (processingHistory s) \<or>
     status x = (case out of Fulfilled doc \<Rightarrow> Completed | Rejected e \<Rightarrow> Failed)"
  by (cases out) (auto simp add: settle_def)

lemma run_append: "run s (xs @ ys) = run (run s xs) ys"
  by (induction xs arbitrary: s) simp_all

lemma drawn_Cons: "drawn (e # es) = drawn [e] @ drawn es"
  by (cases e) simp_all

lemma drawn_append: "drawn (xs @ ys) = drawn xs @ drawn ys"
proof (induction xs)
  case Nil
  then show ?case by simp
next
  case (Cons e xs)
  have "drawn ((e # xs) @ ys) = drawn [e] @ drawn (xs @ ys)"
    using drawn_Cons [of e "xs @ ys"] by simp
  also have "\<dots> = drawn [e] @ drawn xs @ drawn ys"
    by (simp only: Cons.IH)
  also have "\<dots> = drawn (e # xs) @ drawn ys"
    using drawn_Cons [of e xs] by simp
  finally show ?case .
qed

lemma fresh_split:
  assumes "distinct (drawn (e # es))"
    and "set (drawn (e # es)) \<inter> (jobIds s \<union> set (pending s)) = {}"
  shows "set (drawn [e]) \<inter> (jobIds s \<union> set (pending s)) = {}"
    and "distinct (drawn es)"
    and "set (drawn es) \<inter> (jobIds (snd (handle e s)) \<union> set (pending (snd (handle e s)))) = {}"
proof -
  have d: "distinct (drawn [e] @ drawn es)"
    and f: "set (drawn [e] @ drawn es) \<inter> (jobIds s \<union> set (pending s)) = {}"
    using assms by (simp_all only: drawn_Cons [of e es])
  from f show "set (drawn [e]) \<inter> (jobIds s \<union> set (pending s)) = {}" by auto
  from d show "distinct (drawn es)" by simp
  have "set (drawn es) \<inter> set (drawn [e]) = {}" using d by auto
  moreover have "set (drawn es) \<inter> (jobIds s \<union> set (pending s)) = {}" using f by auto
  ultimately show "set (drawn es) \<inter>
      (jobIds (snd (handle e s)) \<union> set (pending (snd (handle e s)))) = {}"
    using step_ids [of e s] by blast
qed

lemma run_settledApart:
  "settledApart s \<Longrightarrow> distinct (drawn evs) \<Longrightarrow>
   set (drawn evs) \<inter> (jobIds s \<union> set (pending s)) = {} \<Longrightarrow> settledApart (run s evs)"
proof (induction evs arbitrary: s)
  case Nil
  then show ?case by simp
next
  case (Cons e evs)
  note F = fresh_split [OF Cons.prems(2,3)]
  have "settledApart (snd (handle e s))"
    using Cons.prems(1) F(1) by (rule step_settledApart)
  then have "settledApart (run (snd (handle e s)) evs)"
    using F(2,3) by (rule Cons.IH)
  then show ?case by simp
qed

lemma run_jobIds: "jobIds (run s evs) \<subseteq> jobIds s \<union> set (drawn evs)"
proof (induction evs arbitrary: s)
  case Nil
  then show ?case by simp
next
  case (Cons e evs)
  have "jobIds (run (snd (handle e s)) evs) \<subseteq> jobIds (snd (handle e s)) \<union> set (drawn evs)"
    by (rule Cons.IH)
  moreover have "jobIds (snd (handle e s)) \<subseteq> jobIds s \<union> set (drawn [e])"
    using step_ids [of e s] by simp
  moreover have "set (drawn (e # evs)) = set (drawn [e]) \<union> set (drawn evs)"
    using drawn_Cons [of e evs] by simp
  ultimately show ?case by auto
qed

lemma run_pending:
  "jobIds (run s evs) \<union> set (pending (run s evs)) \<subseteq> jobIds s \<union> set (pending s) \<union> set (drawn evs)"
proof (induction evs arbitrary: s)
  case Nil
  then show ?case by simp
next
  case (Cons e evs)
  let ?s1 = "snd (handle e s)"
  have "jobIds (run ?s1 evs) \<union> set (pending (run ?s1 evs)) \<subseteq>
      jobIds ?s1 \<union> set (pending ?s1) \<union> set (drawn evs)"
    by (rule Cons.IH)
  moreover have "jobIds ?s1 \<union> set (pending ?s1) \<subseteq> jobIds s \<union> set (pending s) \<union> set (drawn [e])"
    using step_ids [of e s] by blast
  moreover have "set (drawn (e # evs)) = set (drawn [e]) \<union> set (drawn evs)"
    using drawn_Cons [of e evs] by simp
  ultimately show ?case by auto
qed

lemma run_stable:
  "settledApart s \<Longrightarrow> distinct (drawn evs) \<Longrightarrow>
   set (drawn evs) \<inter> (jobIds s \<union> set (pending s)) = {} \<Longrightarrow>
   item \<in> set (processingHistory s) \<Longrightarrow> status item \<noteq> Pending \<Longrightarrow>
   item' \<in> set (processingHistory (run s evs)) \<Longrightarrow> id_item item' = id_item item \<Longrightarrow>
   item' = item"
proof (induction evs arbitrary: s)
  case Nil
  then show ?case
    using same_id_same_item [of "processingHistory s" item' item]
    by (simp add: settledApart_def)
next
  case (Cons e evs)
  let ?s1 = "snd (handle e s)"
  note F = fresh_split [OF Cons.prems(2,3)]
  have inv1: "settledApart ?s1"
    using Cons.prems(1) F(1) by (rule step_settledApart)
  have there: "item' \<in> set (processingHistory (run ?s1 evs))"
    using Cons.prems(6) by simp
  show ?case
  proof (cases "item \<in> set (processingHistory ?s1)")
    case True
    from inv1 F(2,3) True Cons.prems(5) there Cons.prems(7) show ?thesis
      by (rule Cons.IH)
  next
    case False
    have "id_item item \<notin> jobIds ?s1"
    proof
      assume "id_item item \<in> jobIds ?s1"
      then obtain x where x: "x \<in> set (processingHistory ?s1)" "id_item x = id_item item"
        by (auto simp add: jobIds_def)
      have "x = item"
        using Cons.prems(1) F(1) Cons.prems(4,5) x by (rule step_stable)
      then show False using x(1) False by simp
    qed
    moreover have "id_item item \<notin> set (drawn evs)"
    proof -
      have "id_item item \<in> jobIds s" using Cons.prems(4) by (simp add: jobIds_def)
      moreover have "set (drawn evs) \<subseteq> set (drawn (e # evs))"
        using drawn_Cons [of e evs] by simp
      ultimately show ?thesis using Cons.prems(3) by blast
    qed
    ultimately have "id_item item \<notin> jobIds (run ?s1 evs)"
      using run_jobIds [of ?s1 evs] by blast
    then have "id_item item' \<noteq> id_item item"
      using there by (rule not_jobId)
    then show ?thesis using Cons.prems(7) by simp
  qed
qed

lemma submit_bothSelected:
  "handleProcessImages rnd now (bothSelected\<lparr>processingHistory := h, pending := p\<rparr>) =
     (quiet, bothSelected\<lparr>processingHistory :=
        \<lparr>id_item = newId rnd, timestamp = now,
         nvDocument = \<lparr>imageOptionsArray = Some [''A'', ''B'']\<rparr>, toolName = ''Segmentation'',
         status = Pending, result = None, error = None\<rparr> # h,
        pending := p @ [newId rnd]\<rparr>)"
  by (simp add: bothSelected_def ex_defs handleProcessImages_def truthy_def Let_def
      unselectedIndexes_def toolNameOf_def processingTools_def json_def upt_rec)

lemma run_firstJob:
  "run bothSelected firstJob = bothSelected\<lparr>processingHistory := [doneJob], pending := []\<rparr>"
  using submit_bothSelected [where rnd = "''0.i''" and now = 1 and h = "[]" and p = "[]"]
  by (simp add: firstJob_def doneJob_def settle_def newId_def bothSelected_def session0_def)

lemma run_secondJob:
  "run (bothSelected\<lparr>processingHistory := [doneJob], pending := []\<rparr>) secondJob =
     bothSelected\<lparr>processingHistory :=
       [\<lparr>id_item = ''j'', timestamp = 2,
         nvDocument = \<lparr>imageOptionsArray = Some [''A'', ''B'']\<rparr>, toolName = ''Segmentation'',
         status = Failed, result = None, error = Some ''HTTP error! Status: 500''\<rparr>, doneJob],
       pending := []\<rparr>"
  using submit_bothSelected [where rnd = "''0.j''" and now = 2 and h = "[doneJob]" and p = "[]"]
  by (simp add: secondJob_def doneJob_def settle_def newId_def serverError_def)

lemma run_repeatedJob:
  "run (bothSelected\<lparr>processingHistory := [doneJob], pending := []\<rparr>) repeatedJob =
     bothSelected\<lparr>processingHistory :=
       [\<lparr>id_item = ''i'', timestamp = 2,
         nvDocument = \<lparr>imageOptionsArray = Some [''A'', ''B'']\<rparr>, toolName = ''Segmentation'',
         status = Failed, result = None, error = Some ''HTTP error! Status: 500''\<rparr>,
        doneJob\<lparr>status := Failed, error := Some ''HTTP error! Status: 500''\<rparr>],
       pending := []\<rparr>"
  using submit_bothSelected [where rnd = "''0.i''" and now = 2 and h = "[doneJob]" and p = "[]"]
  by (simp add: repeatedJob_def doneJob_def settle_def newId_def serverError_def)

text \<open>
  C6, as amended. Record creation takes the id from the random string and checks it
  against nothing. In a session that starts with an empty history and no outstanding
  callback, the ids of the records in the history are pairwise distinct whenever the ids
  drawn by the session's submissions are pairwise distinct.
\<close>

theorem ids_distinct_when_draws_differ:
  assumes "processingHistory s0 = []" and "pending s0 = []"
    and "distinct (drawn evs)"
  shows "distinct (map id_item (processingHistory (run s0 evs)))"
proof -
  have "settledApart s0"
    using assms(1,2) by (simp add: settledApart_def)
  moreover have "set (drawn evs) \<inter> (jobIds s0 \<union> set (pending s0)) = {}"
    using assms(1,2) by (simp add: jobIds_def)
  ultimately have "settledApart (run s0 evs)"
    using assms(3) by (intro run_settledApart)
  then show ?thesis by (simp add: settledApart_def)
qed

text \<open>Witness for C6: two jobs with the ids \<open>i\<close> and \<open>j\<close>.\<close>

theorem ids_distinct_when_draws_differ_witness:
  "distinct (drawn (firstJob @ secondJob)) \<and>
   distinct (map id_item (processingHistory (run bothSelected (firstJob @ secondJob)))) \<and>
   map id_item (processingHistory (run bothSelected (firstJob @ secondJob))) = [''j'', ''i'']"
proof -
  have e: "processingHistory bothSelected = []" "pending bothSelected = []"
    by (simp_all add: bothSelected_def session0_def)
  have d: "distinct (drawn (firstJob @ secondJob))"
    by (simp add: firstJob_def secondJob_def newId_def)
  have "map id_item (processingHistory (run bothSelected (firstJob @ secondJob))) = [''j'', ''i'']"
    by (simp add: run_append run_firstJob run_secondJob) (simp add: doneJob_def)
  then show ?thesis
    using ids_distinct_when_draws_differ [OF e d] d by simp
qed

text \<open>
  Counterexample to C6 as stated: two submissions that both draw \<open>0.5\<close> (\<open>0.i\<close> in base
  36) create two records, told apart by their timestamps, with the same id \<open>i\<close>.
\<close>

theorem same_draw_same_id_counterexample:
  "map id_item (processingHistory (run bothSelected (firstJob @ repeatedJob))) = [''i'', ''i''] \<and>
   map timestamp (processingHistory (run bothSelected (firstJob @ repeatedJob))) = [2, 1] \<and>
   \<not> distinct (map id_item (processingHistory (run bothSelected (firstJob @ repeatedJob))))"
  by (simp add: run_append run_firstJob run_repeatedJob) (simp add: doneJob_def)

text \<open>
  C2, as amended. A record that \<open>handleProcessImages\<close> adds is pending, with neither
  result nor error; a record that a settling callback changes is completed when the
  callback succeeded and failed when it did not. In a session that starts with an empty
  history and no outstanding callback, and whose submissions draw pairwise distinct ids,
  a record that is completed or failed at some point stays exactly as it is, whatever
  happens later and in whatever order the outstanding callbacks settle: any record
  that carries its id later in the session is that same record, unchanged.
\<close>

theorem status_settles_once:
  assumes "processingHistory s0 = []" and "pending s0 = []"
    and "distinct (drawn (evs1 @ evs2))"
    and "item \<in> set (processingHistory (run s0 evs1))" and "status item \<noteq> Pending"
    and "item' \<in> set (processingHistory (run s0 (evs1 @ evs2)))"
    and "id_item item' = id_item item"
  shows "(\<forall>x \<in> set (processingHistory (snd (handleProcessImages rnd now s))).
            x \<in> set (processingHistory s) \<or>
            status x = Pending \<and> result x = None \<and> error x = None) \<and>
         (\<forall>x \<in> set (processingHistory (snd (settle k out s))).
            x \<in> set (processingHistory s) \<or>
            status x = (case out of Fulfilled doc \<Rightarrow> Completed | Rejected e \<Rightarrow> Failed)) \<and>
         item' = item"
proof (intro conjI)
  show "\<forall>x \<in> set (processingHistory (snd (handleProcessImages rnd now s))).
            x \<in> set (processingHistory s) \<or>
            status x = Pending \<and> result x = None \<and> error x = None"
    by (rule created_pending)
  show "\<forall>x \<in> set (processingHistory (snd (settle k out s))).
            x \<in> set (processingHistory s) \<or>
            status x = (case out of Fulfilled doc \<Rightarrow> Completed | Rejected e \<Rightarrow> Failed)"
    by (rule settled_terminal)
next
  have d: "distinct (drawn evs1)" "distinct (drawn evs2)"
    "set (drawn evs1) \<inter> set (drawn evs2) = {}"
    using assms(3) by (simp_all add: drawn_append)
  have inv0: "settledApart s0"
    using assms(1,2) by (simp add: settledApart_def)
  have f0: "set (drawn evs1) \<inter> (jobIds s0 \<union> set (pending s0)) = {}"
    using assms(1,2) by (simp add: jobIds_def)
  have inv1: "settledApart (run s0 evs1)"
    using inv0 d(1) f0 by (rule run_settledApart)
  have "jobIds (run s0 evs1) \<union> set (pending (run s0 evs1)) \<subseteq> set (drawn evs1)"
    using run_pending [of s0 evs1] assms(1,2) by (simp add: jobIds_def)
  then have f1: "set (drawn evs2) \<inter> (jobIds (run s0 evs1) \<union> set (pending (run s0 evs1))) = {}"
    using d(3) by blast
  have there: "item' \<in> set (processingHistory (run (run s0 evs1) evs2))"
    using assms(6) by (simp only: run_append)
  from inv1 d(2) f1 assms(4,5) there assms(7) show "item' = item"
    by (rule run_stable)
qed

text \<open>
  Witness for C2: the completed job \<open>i\<close> is still the same record after a second job
  with the id \<open>j\<close> has been submitted and has failed.
\<close>

theorem status_settles_once_witness:
  "doneJob \<in> set (processingHistory (run bothSelected firstJob)) \<and>
   status doneJob = Completed \<and>
   distinct (drawn (firstJob @ secondJob)) \<and>
   last (processingHistory (run bothSelected (firstJob @ secondJob))) = doneJob"
proof -
  let ?later = "last (processingHistory (run bothSelected (firstJob @ secondJob)))"
  have e: "processingHistory bothSelected = []" "pending bothSelected = []"
    by (simp_all add: bothSelected_def session0_def)
  have d: "distinct (drawn (firstJob @ secondJob))"
    by (simp add: firstJob_def secondJob_def newId_def)
  have m: "doneJob \<in> set (processingHistory (run bothSelected firstJob))"
    by (simp add: run_firstJob)
  have c: "status doneJob \<noteq> Pending" "status doneJob = Completed"
    by (simp_all add: doneJob_def)
  have h: "processingHistory (run bothSelected (firstJob @ secondJob)) \<noteq> []"
    by (simp add: run_append run_firstJob run_secondJob)
  have m': "?later \<in> set (processingHistory (run bothSelected (firstJob @ secondJob)))"
    using h by (rule last_in_set)
  have i': "id_item ?later = id_item doneJob"
    by (simp add: run_append run_firstJob run_secondJob)
  have "?later = doneJob"
    using status_settles_once [OF e d m c(1) m' i'] by (rule conjunct2 [THEN conjunct2])
  then show ?thesis
    using m c(2) d by simp
qed

text \<open>
  Counterexample to C2 as stated: the first job is completed; a later submission draws
  the same id, and when it fails the update by id turns the completed record into a
  failed one, which then holds a result and the status \<open>failed\<close>.
\<close>

theorem status_overwritten_counterexample:
  "map status (processingHistory (run bothSelected firstJob)) = [Completed] \<and>
   map timestamp (processingHistory (run bothSelected firstJob)) = [1] \<and>
   map status (processingHistory (run bothSelected (firstJob @ repeatedJob))) = [Failed, Failed] \<and>
   map timestamp (processingHistory (run bothSelected (firstJob @ repeatedJob))) = [2, 1] \<and>
   map result (processingHistory (run bothSelected (firstJob @ repeatedJob))) = [None, Some scene1]"
  by (simp add: run_append run_firstJob run_repeatedJob) (simp add: doneJob_def)

section \<open>Resolution and deletion act on records by id\<close>

lemma resolve_nth:
  "k < length prev \<Longrightarrow>
   resolve jid out prev ! k =
        (if id_item (prev ! k) = jid
         then (case out of
                 Fulfilled doc \<Rightarrow> (prev ! k)\<lparr>status := Completed, result := Some doc\<rparr>
               | Rejected e \<Rightarrow> (prev ! k)\<lparr>status := Failed, error := Some (message e)\<rparr>)
         else prev ! k)"
  by (cases out) simp_all

lemma run_two_waiting:
  "run bothSelected [ProcessImages ''0.i'' 1, ProcessImages ''0.j'' 2] =
     bothSelected\<lparr>processingHistory := [waitingJob ''j'' 2, waitingJob ''i'' 1],
       pending := [''i'', ''j'']\<rparr>"
  using submit_bothSelected [where rnd = "''0.i''" and now = 1 and h = "[]" and p = "[]"]
    submit_bothSelected [where rnd = "''0.j''" and now = 2 and h = "[waitingJob ''i'' 1]"
      and p = "[''i'']"]
  by (simp add: waitingJob_def newId_def bothSelected_def session0_def)

lemma run_same_id_waiting:
  "run bothSelected (firstJob @ [ProcessImages ''0.i'' 2]) =
     bothSelected\<lparr>processingHistory := [waitingJob ''i'' 2, doneJob], pending := [''i'']\<rparr>"
  using submit_bothSelected [where rnd = "''0.i''" and now = 2 and h = "[doneJob]" and p = "[]"]
  by (simp add: run_append run_firstJob waitingJob_def newId_def)

text \<open>
  C4, as amended. When an outstanding callback settles, with success or with failure,
  the history keeps its length and the order of its ids; at every position a record that
  carries the job's id is replaced by its completed or failed version and a record with
  any other id is left as it was; when the ids in the history are pairwise distinct, the
  record with the job's id is the only one replaced: every other position is untouched.
  The registry and the renderer are not touched either.
\<close>

theorem settle_frame:
  assumes "k < length (pending s)"
  shows "length (processingHistory (snd (settle k out s))) = length (processingHistory s) \<and>
     map id_item (processingHistory (snd (settle k out s))) = map id_item (processingHistory s) \<and>
     (\<forall>p < length (processingHistory s).
        processingHistory (snd (settle k out s)) ! p =
          (if id_item (processingHistory s ! p) = pending s ! k
           then (case out of
                   Fulfilled doc \<Rightarrow> (processingHistory s ! p)\<lparr>status := Completed, result := Some doc\<rparr>
                 | Rejected e \<Rightarrow>
                     (processingHistory s ! p)\<lparr>status := Failed, error := Some (message e)\<rparr>)
           else processingHistory s ! p)) \<and>
     (distinct (map id_item (processingHistory s)) \<longrightarrow>
        (\<forall>p < length (processingHistory s). \<forall>q < length (processingHistory s).
           id_item (processingHistory s ! p) = pending s ! k \<and> q \<noteq> p \<longrightarrow>
             processingHistory (snd (settle k out s)) ! q = processingHistory s ! q)) \<and>
     images (snd (settle k out s)) = images s \<and> nv (snd (settle k out s)) = nv s"
proof -
  let ?h = "processingHistory s"
  have h': "processingHistory (snd (settle k out s)) = resolve (pending s ! k) out ?h"
    using assms by (simp add: settle_def)
  have len: "length (resolve (pending s ! k) out ?h) = length ?h"
    using arg_cong [OF resolve_ids [of "pending s ! k" out ?h], of length] by simp
  have other: "resolve (pending s ! k) out ?h ! q = ?h ! q"
    if d: "distinct (map id_item ?h)" and p: "p < length ?h" and q: "q < length ?h"
      and hit: "id_item (?h ! p) = pending s ! k" and ne: "q \<noteq> p" for p q
  proof -
    have "id_item (?h ! q) \<noteq> id_item (?h ! p)"
      using nth_eq_iff_index_eq [OF d, of q p] p q ne by simp
    then have "id_item (?h ! q) \<noteq> pending s ! k"
      using hit by simp
    then show ?thesis using q by (simp add: resolve_nth)
  qed
  show ?thesis
    unfolding h'
    using len resolve_ids [of "pending s ! k" out ?h] other assms
    by (auto simp add: resolve_nth settle_def)
qed

text \<open>
  Witness for C4: of two waiting jobs with the ids \<open>j\<close> and \<open>i\<close>, the callback of \<open>i\<close>
  succeeds; the record of \<open>j\<close> is untouched and the record of \<open>i\<close> is completed.
\<close>

theorem settle_frame_witness:
  "processingHistory (snd (settle 0 (Fulfilled scene1)
       (run bothSelected [ProcessImages ''0.i'' 1, ProcessImages ''0.j'' 2]))) ! 0 = waitingJob ''j'' 2 \<and>
   processingHistory (snd (settle 0 (Fulfilled scene1)
       (run bothSelected [ProcessImages ''0.i'' 1, ProcessImages ''0.j'' 2]))) ! 1 = doneJob \<and>
   length (processingHistory (snd (settle 0 (Fulfilled scene1)
       (run bothSelected [ProcessImages ''0.i'' 1, ProcessImages ''0.j'' 2])))) = 2"
proof -
  let ?s = "bothSelected\<lparr>processingHistory := [waitingJob ''j'' 2, waitingJob ''i'' 1],
       pending := [''i'', ''j'']\<rparr>"
  have k: "0 < length (pending ?s)" by simp
  note T = settle_frame [OF k, of "Fulfilled scene1"]
  have d: "distinct (map id_item (processingHistory ?s))"
    by (simp add: waitingJob_def)
  have len: "length (processingHistory (snd (settle 0 (Fulfilled scene1) ?s))) = 2"
    using T by simp
  have one: "processingHistory (snd (settle 0 (Fulfilled scene1) ?s)) ! 1 = doneJob"
    using T by (simp add: waitingJob_def doneJob_def)
  have "\<forall>p < length (processingHistory ?s). \<forall>q < length (processingHistory ?s).
           id_item (processingHistory ?s ! p) = pending ?s ! 0 \<and> q \<noteq> p \<longrightarrow>
             processingHistory (snd (settle 0 (Fulfilled scene1) ?s)) ! q = processingHistory ?s ! q"
    using T d by blast
  from this [rule_format, of 1 0]
  have zero: "processingHistory (snd (settle 0 (Fulfilled scene1) ?s)) ! 0 = waitingJob ''j'' 2"
    by (simp add: waitingJob_def)
  show ?thesis
    unfolding run_two_waiting using zero one len by simp
qed

text \<open>
  Counterexample to C4 as stated: after the first job has completed, a second
  submission draws the same id; when its callback fails, both records are replaced: the
  new one and the completed record of the first job, which is another record.
\<close>

theorem settle_two_records_counterexample:
  "map timestamp (processingHistory (run bothSelected (firstJob @ [ProcessImages ''0.i'' 2]))) = [2, 1] \<and>
   pending (run bothSelected (firstJob @ [ProcessImages ''0.i'' 2])) = [''i''] \<and>
   processingHistory (run bothSelected (firstJob @ [ProcessImages ''0.i'' 2])) ! 1 = doneJob \<and>
   processingHistory (snd (settle 0 serverError
       (run bothSelected (firstJob @ [ProcessImages ''0.i'' 2])))) ! 0 \<noteq>
     processingHistory (run bothSelected (firstJob @ [ProcessImages ''0.i'' 2])) ! 0 \<and>
   processingHistory (snd (settle 0 serverError
       (run bothSelected (firstJob @ [ProcessImages ''0.i'' 2])))) ! 1 \<noteq> doneJob"
  unfolding run_same_id_waiting
  by (simp add: settle_def serverError_def waitingJob_def doneJob_def)

text \<open>
  C5, as amended. \<open>handleDeleteHistoryItem i\<close> leaves a subsequence of the history (the
  relative order of what remains is unchanged), no remaining record has the id \<open>i\<close>, and
  every record with another id remains, as often as it occurred; when the ids in the
  history are pairwise distinct, exactly the one record with the id \<open>i\<close> is taken out of
  the list.
\<close>

theorem delete_removes_by_id:
  "subseq (processingHistory (snd (handleDeleteHistoryItem i s))) (processingHistory s) \<and>
   i \<notin> id_item ` set (processingHistory (snd (handleDeleteHistoryItem i s))) \<and>
   mset (processingHistory (snd (handleDeleteHistoryItem i s))) =
     {#item \<in># mset (processingHistory s). id_item item \<noteq> i#} \<and>
   (distinct (map id_item (processingHistory s)) \<longrightarrow>
      (\<forall>xs r ys. processingHistory s = xs @ r # ys \<and> id_item r = i \<longrightarrow>
         processingHistory (snd (handleDeleteHistoryItem i s)) = xs @ ys))"
proof -
  have one: "filter (\<lambda>item. id_item item \<noteq> i) (xs @ r # ys) = xs @ ys"
    if "distinct (map id_item (xs @ r # ys))" "id_item r = i" for xs r ys
  proof -
    have "i \<notin> id_item ` set xs" "i \<notin> id_item ` set ys"
      using that by auto
    then have "\<And>x. x \<in> set xs \<Longrightarrow> id_item x \<noteq> i" "\<And>y. y \<in> set ys \<Longrightarrow> id_item y \<noteq> i"
      by blast+
    then have "filter (\<lambda>item. id_item item \<noteq> i) xs = xs"
      "filter (\<lambda>item. id_item item \<noteq> i) ys = ys"
      by (simp_all add: filter_id_conv)
    then show ?thesis using that(2) by simp
  qed
  have h': "processingHistory (snd (handleDeleteHistoryItem i s)) =
      filter (\<lambda>item. id_item item \<noteq> i) (processingHistory s)"
    by (simp add: handleDeleteHistoryItem_def)
  have "distinct (map id_item (processingHistory s)) \<longrightarrow>
      (\<forall>xs r ys. processingHistory s = xs @ r # ys \<and> id_item r = i \<longrightarrow>
         processingHistory (snd (handleDeleteHistoryItem i s)) = xs @ ys)"
  proof (intro impI allI)
    fix xs r ys
    assume d: "distinct (map id_item (processingHistory s))"
      and e: "processingHistory s = xs @ r # ys \<and> id_item r = i"
    from d e have "distinct (map id_item (xs @ r # ys))" by simp
    from one [OF this] e show "processingHistory (snd (handleDeleteHistoryItem i s)) = xs @ ys"
      by (simp only: h')
  qed
  moreover have "subseq (processingHistory (snd (handleDeleteHistoryItem i s))) (processingHistory s)"
    by (simp add: h')
  moreover have "i \<notin> id_item ` set (processingHistory (snd (handleDeleteHistoryItem i s)))"
    by (auto simp add: h')
  moreover have "mset (processingHistory (snd (handleDeleteHistoryItem i s))) =
     {#item \<in># mset (processingHistory s). id_item item \<noteq> i#}"
    by (simp add: h')
  ultimately show ?thesis by blast
qed

text \<open>Witness for C5: the middle one of three records with distinct ids is deleted.\<close>

theorem delete_removes_by_id_witness:
  "distinct (map id_item [job ''a'' Pending, job ''b'' Pending, job ''c'' Failed]) \<and>
   processingHistory (snd (handleDeleteHistoryItem ''b''
       (session0\<lparr>processingHistory := [job ''a'' Pending, job ''b'' Pending, job ''c'' Failed]\<rparr>)))
     = [job ''a'' Pending, job ''c'' Failed]"
proof -
  let ?s = "session0\<lparr>processingHistory := [job ''a'' Pending, job ''b'' Pending, job ''c'' Failed]\<rparr>"
  have d: "distinct (map id_item (processingHistory ?s))"
    by (simp add: job_def)
  have "\<forall>xs r ys. processingHistory ?s = xs @ r # ys \<and> id_item r = ''b'' \<longrightarrow>
         processingHistory (snd (handleDeleteHistoryItem ''b'' ?s)) = xs @ ys"
    using delete_removes_by_id [of "''b''" ?s] d by blast
  from this [rule_format, of "[job ''a'' Pending]" "job ''b'' Pending" "[job ''c'' Failed]"]
  have "processingHistory (snd (handleDeleteHistoryItem ''b'' ?s)) = [job ''a'' Pending, job ''c'' Failed]"
    by (simp add: job_def)
  then show ?thesis using d by simp
qed

text \<open>
  Counterexample to C5 as stated: two submissions have drawn the same id, and one
  deletion by that id removes both records.
\<close>

theorem delete_two_records_counterexample:
  "map timestamp (processingHistory (run bothSelected (firstJob @ repeatedJob))) = [2, 1] \<and>
   processingHistory (snd (handleDeleteHistoryItem ''i''
       (run bothSelected (firstJob @ repeatedJob)))) = []"
  by (simp add: run_append run_firstJob run_repeatedJob) (simp add: handleDeleteHistoryItem_def doneJob_def)

end
